theory Spec2Isabelle
  imports Main "HOL-Library.AList"
begin

section \<open>Magellan: package graph analysis (magellan/package\_utils.py)\<close>

text \<open>
  A shallow embedding of the \<^verbatim>\<open>Package\<close> and \<^verbatim>\<open>Requirements\<close> classes.
  Python strings are \<^typ>\<open>string\<close>; a node is the pair (name, version), an edge a pair
  of nodes. A Python dict is an association list read with \<^const>\<open>map_of\<close> and written
  with \<^const>\<open>AList.update\<close> (a store to a present key replaces the value in place, a store
  to a new key appends it). Every raise of the source is the \<open>Inl\<close> branch of a sum.
\<close>

subsection \<open>Data model\<close>

type_synonym node = "string \<times> string"
type_synonym edge = "node \<times> node"
type_synonym ('k, 'v) dict = "('k \<times> 'v) list"

datatype error = InvalidEdges | InvalidNodes | KeyError | IndexError

text \<open>\<^verbatim>\<open>str.lower()\<close> on ASCII text: the letters A to Z move to a to z.\<close>

definition lower_char :: "char \<Rightarrow> char" where
  "lower_char c =
     (let n = (of_char c :: nat) in if 65 \<le> n \<and> n \<le> 90 then char_of (n + 32) else c)"

definition lower :: "string \<Rightarrow> string" where
  "lower s = map lower_char s"

subsection \<open>Text of an edge: \<^verbatim>\<open>str(nx)\<close>\<close>

text \<open>
  \<^verbatim>\<open>str\<close> of a tuple of tuples of strings prints each string with \<^verbatim>\<open>repr\<close>, here
  as Python 2 prints a byte string (the module is Python 2 code; on printable ASCII text
  Python 3 prints the same): quoted with a single quote unless the string holds a single quote and no double quote,
  backslash and the chosen quote escaped, tab, newline and carriage return written as
  \<^verbatim>\<open>\t\<close>, \<^verbatim>\<open>\n\<close>, \<^verbatim>\<open>\r\<close>, every other byte outside the printable ASCII range as
  \<^verbatim>\<open>\xNN\<close>.
\<close>

definition hex_digit :: "nat \<Rightarrow> char" where
  "hex_digit n = (if n < 10 then char_of (48 + n) else char_of (87 + n))"

definition repr_char :: "char \<Rightarrow> char \<Rightarrow> string" where
  "repr_char q c =
     (let n = (of_char c :: nat) in
      if c = CHR 0x5C then [CHR 0x5C, CHR 0x5C]
      else if c = q then [CHR 0x5C, q]
      else if c = CHR 0x09 then [CHR 0x5C, CHR ''t'']
      else if c = CHR 0x0A then [CHR 0x5C, CHR ''n'']
      else if c = CHR 0x0D then [CHR 0x5C, CHR ''r'']
      else if n < 32 \<or> 127 \<le> n then [CHR 0x5C, CHR ''x'', hex_digit (n div 16), hex_digit (n mod 16)]
      else [c])"

definition py_repr :: "string \<Rightarrow> string" where
  "py_repr s =
     (let q = (if CHR 0x27 \<in> set s \<and> CHR 0x22 \<notin> set s then CHR 0x22 else CHR 0x27)
      in q # concat (map (repr_char q) s) @ [q])"

definition str_node :: "node \<Rightarrow> string" where
  "str_node x = ''('' @ py_repr (fst x) @ '', '' @ py_repr (snd x) @ '')''"

definition str_edge :: "edge \<Rightarrow> string" where
  "str_edge nx = ''('' @ str_node (fst nx) @ '', '' @ str_node (snd nx) @ '')''"

text \<open>\<^verbatim>\<open>sub in s\<close> on strings: \<open>sub\<close> occurs in \<open>s\<close> as a contiguous run.\<close>

fun py_in :: "string \<Rightarrow> string \<Rightarrow> bool" where
  "py_in sub [] = (sub = [])"
| "py_in sub (c # cs) = (take (length sub) (c # cs) = sub \<or> py_in sub cs)"

text \<open>The test of lines 254 and 255: \<^verbatim>\<open>'root' not in str(nx)\<close>.\<close>

definition root_not_in_str :: "edge \<Rightarrow> bool" where
  "root_not_in_str nx = (\<not> py_in ''root'' (str_edge nx))"

subsection \<open>Graph primitives\<close>

text \<open>
  \<^verbatim>\<open>get_direct_links_to_any_package\<close> (lines 320 to 331). The edge argument is
  \<open>None\<close> for an object without \<^verbatim>\<open>__iter__\<close>; such an argument and the empty
  collection both raise \<^verbatim>\<open>InvalidEdges\<close>.
\<close>

definition get_direct_links_to_any_package ::
  "string \<Rightarrow> edge list option \<Rightarrow> error + (edge list \<times> edge list)" where
  "get_direct_links_to_any_package package edges =
     (case edges of
        None \<Rightarrow> Inl InvalidEdges
      | Some es \<Rightarrow>
          if es = [] then Inl InvalidEdges
          else Inr (filter (\<lambda>x. lower package = lower (fst (snd x))) es,
                    filter (\<lambda>x. lower package = lower (fst (fst x))) es))"

text \<open>
  The \<^verbatim>\<open>Package\<close> object (lines 35 to 45), with the fields its accessors read and write.
\<close>

record package =
  p_name :: string
  p_key :: string
  p_version :: "string option"
  p_descendants :: "edge list"
  p_ancestors :: "edge list"

definition init_package :: "string \<Rightarrow> string option \<Rightarrow> package" where
  "init_package n v =
     \<lparr>p_name = n, p_key = lower n, p_version = v, p_descendants = [], p_ancestors = []\<rparr>"

text \<open>
  \<^verbatim>\<open>ancestors\<close> and \<^verbatim>\<open>descendants\<close> (lines 51 to 62) return the value and the
  object as updated: the list is computed while the stored one is empty.
\<close>

definition ancestors :: "package \<Rightarrow> edge list \<Rightarrow> edge list \<times> package" where
  "ancestors self edges =
     (let self' = (if p_ancestors self = []
                   then self\<lparr>p_ancestors := filter (\<lambda>x. p_key self = lower (fst (snd x))) edges\<rparr>
                   else self)
      in (p_ancestors self', self'))"

definition descendants :: "package \<Rightarrow> edge list \<Rightarrow> edge list \<times> package" where
  "descendants self edges =
     (let self' = (if p_descendants self = []
                   then self\<lparr>p_descendants := filter (\<lambda>x. p_key self = lower (fst (fst x))) edges\<rparr>
                   else self)
      in (p_descendants self', self'))"

subsection \<open>Distance engine: \<^verbatim>\<open>calc_node_distances\<close> (lines 214 to 317)\<close>

text \<open>
  The list comprehensions of lines 257 to 260: the far end of each link whose
  \<^verbatim>\<open>node_touched\<close> entry is false; a far end missing from the dict raises \<^verbatim>\<open>KeyError\<close>.
\<close>

fun untouched_ends ::
  "(edge \<Rightarrow> string) \<Rightarrow> (string, bool) dict \<Rightarrow> edge list \<Rightarrow> error + string list" where
  "untouched_ends sel node_touched [] = Inr []"
| "untouched_ends sel node_touched (nx # rest) =
     (case map_of node_touched (sel nx) of
        None \<Rightarrow> Inl KeyError
      | Some t \<Rightarrow>
          (case untouched_ends sel node_touched rest of
             Inl e \<Rightarrow> Inl e
           | Inr ks \<Rightarrow> Inr (if \<not> t then sel nx # ks else ks)))"

text \<open>
  One pass of the body of \<^verbatim>\<open>for p in search_set\<close> (lines 247 to 261) on the state
  (\<^verbatim>\<open>dist_dict\<close>, \<^verbatim>\<open>node_touched\<close>, \<^verbatim>\<open>to_search_next\<close>).
\<close>

definition loop_body ::
  "edge list option \<Rightarrow> bool \<Rightarrow> int \<Rightarrow> string \<Rightarrow>
   (string, int) dict \<times> (string, bool) dict \<times> string list \<Rightarrow>
   error + ((string, int) dict \<times> (string, bool) dict \<times> string list)" where
  "loop_body edges include_root cur_level p st =
     (case st of (dist_dict, node_touched, to_search_next) \<Rightarrow>
      (case map_of dist_dict p of
         None \<Rightarrow> Inl KeyError
       | Some d \<Rightarrow>
          (let dist_dict' = (if \<bar>d\<bar> > cur_level then AList.update p cur_level dist_dict
                             else dist_dict);
               node_touched' = AList.update p True node_touched
           in (case get_direct_links_to_any_package p edges of
                 Inl e \<Rightarrow> Inl e
               | Inr (anc0, dec0) \<Rightarrow>
                  (let anc = (if \<not> include_root then filter root_not_in_str anc0 else anc0);
                       dec = (if \<not> include_root then filter root_not_in_str dec0 else dec0)
                   in (case untouched_ends (\<lambda>nx. lower (fst (snd nx))) node_touched' dec of
                         Inl e \<Rightarrow> Inl e
                       | Inr dec_search \<Rightarrow>
                          (case untouched_ends (\<lambda>nx. lower (fst (fst nx))) node_touched' anc of
                             Inl e \<Rightarrow> Inl e
                           | Inr anc_search \<Rightarrow>
                               Inr (dist_dict', node_touched',
                                    to_search_next @ dec_search @ anc_search))))))))"

fun for_loop ::
  "edge list option \<Rightarrow> bool \<Rightarrow> int \<Rightarrow> string list \<Rightarrow>
   (string, int) dict \<times> (string, bool) dict \<times> string list \<Rightarrow>
   error + ((string, int) dict \<times> (string, bool) dict \<times> string list)" where
  "for_loop edges include_root cur_level [] st = Inr st"
| "for_loop edges include_root cur_level (p # ps) st =
     (case loop_body edges include_root cur_level p st of
        Inl e \<Rightarrow> Inl e
      | Inr st' \<Rightarrow> for_loop edges include_root cur_level ps st')"

text \<open>The entries of \<^verbatim>\<open>node_touched\<close> that are still false.\<close>

definition untouched :: "(string, bool) dict \<Rightarrow> string set" where
  "untouched node_touched = {k. map_of node_touched k = Some False}"

lemma untouched_update_True: "untouched (AList.update p True nt) = untouched nt - {p}"
  by (auto simp: untouched_def update_conv')

lemma untouched_ends_subset:
  "untouched_ends sel nt es = Inr ks \<Longrightarrow> set ks \<subseteq> untouched nt"
  by (induction es arbitrary: ks)
     (auto simp: untouched_def split: option.splits sum.splits if_splits)

lemma loop_body_untouched:
  assumes "loop_body edges ir cur p (dd, nt, nxt) = Inr (dd', nt', nxt')"
  shows "untouched nt' = untouched nt - {p}" and "set nxt' \<subseteq> set nxt \<union> untouched nt"
proof -
  from assms obtain anc dec ds as where
    nt': "nt' = AList.update p True nt" and
    ds: "untouched_ends (\<lambda>nx. lower (fst (snd nx))) nt' dec = Inr ds" and
    as: "untouched_ends (\<lambda>nx. lower (fst (fst nx))) nt' anc = Inr as" and
    nxt': "nxt' = nxt @ ds @ as"
    by (auto simp: loop_body_def Let_def split: option.splits sum.splits prod.splits)
  show "untouched nt' = untouched nt - {p}"
    by (simp add: nt' untouched_update_True)
  then show "set nxt' \<subseteq> set nxt \<union> untouched nt"
    using untouched_ends_subset[OF ds] untouched_ends_subset[OF as] nxt' by auto
qed

lemma for_loop_untouched:
  "for_loop edges ir cur ss (dd, nt, nxt) = Inr (dd', nt', nxt') \<Longrightarrow>
   untouched nt' = untouched nt - set ss \<and> set nxt' \<subseteq> set nxt \<union> untouched nt"
proof (induction ss arbitrary: dd nt nxt)
  case Nil
  then show ?case by simp
next
  case (Cons p ps)
  from Cons.prems obtain dd1 nt1 nxt1 where
    b: "loop_body edges ir cur p (dd, nt, nxt) = Inr (dd1, nt1, nxt1)" and
    r: "for_loop edges ir cur ps (dd1, nt1, nxt1) = Inr (dd', nt', nxt')"
    by (auto split: sum.splits)
  from Cons.IH[OF r] loop_body_untouched[OF b] show ?case by auto
qed

lemma finite_untouched: "finite (untouched nt)"
proof -
  have "untouched nt \<subseteq> fst ` set nt"
    by (auto simp: untouched_def dest: map_of_SomeD intro: rev_image_eqI)
  then show ?thesis by (rule finite_subset) simp
qed

text \<open>
  \<^verbatim>\<open>list(set(xs))\<close> holds each element of \<open>xs\<close> once, in the iteration order of the
  set, which Python leaves to the hash values. The order is the parameter \<open>set_order\<close>:
  the elements come in the order \<open>set_order xs\<close> lists them, and those it does not list
  follow in the order of \<open>xs\<close>. Every duplicate-free arrangement of the elements is the
  value for some \<open>set_order\<close>.
\<close>

definition list_of_set :: "('a list \<Rightarrow> 'a list) \<Rightarrow> 'a list \<Rightarrow> 'a list" where
  "list_of_set set_order xs =
     (let ys = filter (\<lambda>k. k \<in> set xs) (set_order xs)
      in remdups ys @ filter (\<lambda>k. k \<notin> set ys) (remdups xs))"

lemma set_list_of_set [simp]: "set (list_of_set set_order xs) = set xs"
  by (auto simp: list_of_set_def Let_def)

lemma list_of_set_Nil_iff [simp]: "list_of_set set_order xs = [] \<longleftrightarrow> xs = []"
proof -
  have "list_of_set set_order xs = [] \<longleftrightarrow> set (list_of_set set_order xs) = {}"
    by (simp only: set_empty)
  then show ?thesis by simp
qed

lemma distinct_list_of_set: "distinct (list_of_set set_order xs)"
  by (auto simp: list_of_set_def Let_def)

lemma list_of_set_any_order:
  assumes "distinct ys" and "set ys = set xs"
  shows "list_of_set (\<lambda>_. ys) xs = ys"
proof -
  have "filter (\<lambda>k. k \<in> set xs) ys = ys" using assms(2) by (simp add: filter_id_conv)
  moreover have "filter (\<lambda>k. k \<notin> set ys) (remdups xs) = []"
    using assms(2) by (simp add: filter_empty_conv)
  ultimately show ?thesis using assms(1) by (simp add: list_of_set_def Let_def distinct_remdups_id)
qed

text \<open>
  The recursion of \<^verbatim>\<open>rec_fun\<close> ends: a level whose search set holds an untouched key
  touches it, and a level whose search set holds none is followed by one that does.
\<close>

definition rec_measure :: "string list \<Rightarrow> (string, bool) dict \<Rightarrow> nat" where
  "rec_measure ss nt =
     2 * card (untouched nt) + (if set ss \<inter> untouched nt = {} then 1 else 0)"

lemma rec_measure_decreases:
  assumes "for_loop edges ir cur ss (dd, nt, []) = Inr (dd', nt', nxt)"
    and "list_of_set set_order nxt \<noteq> []"
  shows "rec_measure (list_of_set set_order nxt) nt' < rec_measure ss nt"
proof -
  from for_loop_untouched[OF assms(1)]
  have u: "untouched nt' = untouched nt - set ss" and n: "set nxt \<subseteq> untouched nt" by auto
  show ?thesis
  proof (cases "set ss \<inter> untouched nt = {}")
    case True
    then have "untouched nt' = untouched nt" using u by auto
    moreover from assms(2) n this have "set (list_of_set set_order nxt) \<inter> untouched nt' \<noteq> {}"
      by (cases nxt) auto
    ultimately show ?thesis using True by (simp add: rec_measure_def)
  next
    case False
    then have "untouched nt' \<subset> untouched nt" using u by auto
    then have "card (untouched nt') < card (untouched nt)"
      by (simp add: finite_untouched psubset_card_mono)
    then show ?thesis using False by (simp add: rec_measure_def)
  qed
qed

text \<open>
  \<^verbatim>\<open>rec_fun\<close> (lines 242 to 266). The dicts it shares with its caller are passed in
  and returned. \<^verbatim>\<open>list(set(to_search_next))\<close> is \<^const>\<open>list_of_set\<close>. The
  recursion limit of the interpreter is not part of the model.
\<close>

function rec_fun ::
  "(string list \<Rightarrow> string list) \<Rightarrow> edge list option \<Rightarrow> bool \<Rightarrow>
   string list \<Rightarrow> int \<Rightarrow> (string, int) dict \<times> (string, bool) dict \<Rightarrow>
   error + ((string, int) dict \<times> (string, bool) dict)" where
  "rec_fun set_order edges include_root search_set cur_level st =
     (case for_loop edges include_root cur_level search_set (fst st, snd st, []) of
        Inl e \<Rightarrow> Inl e
      | Inr (dist_dict, node_touched, to_search_next) \<Rightarrow>
          (let to_search_next' = list_of_set set_order to_search_next
           in if to_search_next' \<noteq> []
              then rec_fun set_order edges include_root to_search_next' (cur_level + 1)
                     (dist_dict, node_touched)
              else Inr (dist_dict, node_touched)))"
  by pat_completeness auto
termination
proof (relation "measure (\<lambda>(so, edges, ir, ss, cur, st). rec_measure ss (snd st))", goal_cases)
  case 1
  show ?case by simp
next
  case (2 set_order edges ir ss cur st x2 dd y nt nxt x)
  then show ?case
    using rec_measure_decreases[of edges ir cur ss "fst st" "snd st" dd nt nxt set_order] by simp
qed

declare rec_fun.simps [simp del]

text \<open>The dict comprehensions of lines 278 and 289: every node key mapped to one value.\<close>

definition init_dict :: "'v \<Rightarrow> node list \<Rightarrow> (string, 'v) dict" where
  "init_dict v nodes = foldl (\<lambda>d x. AList.update (lower (fst x)) v d) [] nodes"

text \<open>The keys of the node collection: the lowered names.\<close>

definition node_keys :: "node list \<Rightarrow> string set" where
  "node_keys nodes = set (map (\<lambda>x. lower (fst x)) nodes)"

definition start_distance :: int where
  "start_distance = - 999"

text \<open>
  The result of \<^verbatim>\<open>calc_node_distances\<close>: a list of (name, version, distance), or a
  dict from (name, version) to distance.
\<close>

datatype result = RList "(string \<times> string \<times> int) list" | RDict "(node, int) dict"

text \<open>
  The comprehensions of lines 296 to 312 over \<^verbatim>\<open>nodes\<close>: with
  \<^verbatim>\<open>keep_untouched_nodes\<close> every node, otherwise the nodes whose distance is above the
  start distance.
\<close>

fun node_rows ::
  "(string, int) dict \<Rightarrow> bool \<Rightarrow> node list \<Rightarrow> error + (string \<times> string \<times> int) list" where
  "node_rows dist_dict keep [] = Inr []"
| "node_rows dist_dict keep (x # xs) =
     (case map_of dist_dict (lower (fst x)) of
        None \<Rightarrow> Inl KeyError
      | Some d \<Rightarrow>
          (case node_rows dist_dict keep xs of
             Inl e \<Rightarrow> Inl e
           | Inr rows \<Rightarrow>
               Inr (if keep \<or> d > start_distance then (fst x, snd x, d) # rows else rows)))"

definition rows_dict :: "(string \<times> string \<times> int) list \<Rightarrow> (node, int) dict" where
  "rows_dict rows = foldl (\<lambda>d r. AList.update (fst r, fst (snd r)) (snd (snd r)) d) [] rows"

text \<open>
  \<^verbatim>\<open>calc_node_distances\<close>. The node argument is \<open>None\<close> for an object without
  \<^verbatim>\<open>__iter__\<close>; \<open>set_order\<close> is the iteration order of Python's sets, the argument of
  \<^const>\<open>list_of_set\<close>.
\<close>

definition calc_node_distances ::
  "(string list \<Rightarrow> string list) \<Rightarrow> string \<Rightarrow> node list option \<Rightarrow>
   edge list option \<Rightarrow> bool \<Rightarrow> bool \<Rightarrow> string \<Rightarrow> error + result" where
  "calc_node_distances set_order package_in nodes edges include_root keep_untouched_nodes
     list_or_dict =
     (let package = lower package_in in
      case nodes of
        None \<Rightarrow> Inl InvalidNodes
      | Some ns \<Rightarrow>
         (let dist_dict0 = init_dict start_distance ns;
              dist_dict = (if include_root then AList.update ''root'' start_distance dist_dict0
                           else dist_dict0)
          in if map_of dist_dict package = None
             then (if list_or_dict = ''list'' then Inr (RList []) else Inr (RDict []))
             else
              (let node_touched0 = init_dict False ns;
                   node_touched = (if include_root then AList.update ''root'' False node_touched0
                                   else node_touched0)
               in case rec_fun set_order edges include_root [lower package] 0
                         (dist_dict, node_touched) of
                    Inl e \<Rightarrow> Inl e
                  | Inr (dist_dict', node_touched') \<Rightarrow>
                     (case node_rows dist_dict' keep_untouched_nodes ns of
                        Inl e \<Rightarrow> Inl e
                      | Inr rows \<Rightarrow>
                         (case (if include_root
                                then (case map_of dist_dict' ''root'' of
                                        None \<Rightarrow> Inl KeyError
                                      | Some d \<Rightarrow> Inr [(''root'', ''0.0.0'', d)])
                                else Inr []) of
                            Inl e \<Rightarrow> Inl e
                          | Inr root_row \<Rightarrow>
                              if list_or_dict = ''list'' then Inr (RList (rows @ root_row))
                              else Inr (RDict (rows_dict (rows @ root_row))))))))"

section \<open>Hop distance in the package graph\<close>

text \<open>
  The edges the search reads: all of them with \<^verbatim>\<open>include_root\<close>, otherwise those that
  pass the test of lines 254 and 255.
\<close>

definition used_edges :: "bool \<Rightarrow> edge list \<Rightarrow> edge list" where
  "used_edges include_root es = (if include_root then es else filter root_not_in_str es)"

text \<open>
  Two keys are adjacent when an edge joins them, in either direction: an ancestor link and
  a descendant link are one hop each.
\<close>

definition adjacent :: "edge list \<Rightarrow> string \<Rightarrow> string \<Rightarrow> bool" where
  "adjacent G u v =
     (\<exists>nx \<in> set G. (lower (fst (fst nx)) = u \<and> lower (fst (snd nx)) = v) \<or>
                     (lower (fst (snd nx)) = u \<and> lower (fst (fst nx)) = v))"

text \<open>\<open>hops G a n v\<close>: a walk of \<open>n\<close> edges of \<open>G\<close> leads from the key \<open>a\<close> to the key \<open>v\<close>.\<close>

inductive hops :: "edge list \<Rightarrow> string \<Rightarrow> nat \<Rightarrow> string \<Rightarrow> bool" for G a where
  hops_0: "hops G a 0 a"
| hops_Suc: "hops G a n u \<Longrightarrow> adjacent G u v \<Longrightarrow> hops G a (Suc n) v"

text \<open>The keys at most \<open>n\<close> hops, and fewer than \<open>n\<close> hops, from \<open>a\<close>; the least hop count.\<close>

definition within :: "edge list \<Rightarrow> string \<Rightarrow> nat \<Rightarrow> string set" where
  "within G a n = {v. \<exists>m\<le>n. hops G a m v}"

definition below :: "edge list \<Rightarrow> string \<Rightarrow> nat \<Rightarrow> string set" where
  "below G a n = {v. \<exists>m<n. hops G a m v}"

definition lvl :: "edge list \<Rightarrow> string \<Rightarrow> string \<Rightarrow> nat" where
  "lvl G a v = (LEAST n. hops G a n v)"

text \<open>
  The keys of the distance dict: the node keys, and \<^verbatim>\<open>root\<close> with \<^verbatim>\<open>include_root\<close>
  (lines 278 to 280). A graph is closed in a key set when both ends of every edge are in
  it, as the data model asks of a snapshot; the keys are lowered names.
\<close>

definition graph_keys :: "bool \<Rightarrow> node list \<Rightarrow> string set" where
  "graph_keys include_root nodes = node_keys nodes \<union> (if include_root then {''root''} else {})"

definition edges_closed :: "bool \<Rightarrow> node list \<Rightarrow> edge list \<Rightarrow> bool" where
  "edges_closed include_root nodes G =
     (\<forall>nx \<in> set G. lower (fst (fst nx)) \<in> graph_keys include_root nodes \<and>
                     lower (fst (snd nx)) \<in> graph_keys include_root nodes)"

definition closed_graph :: "string set \<Rightarrow> edge list \<Rightarrow> bool" where
  "closed_graph K G =
     ((\<forall>nx \<in> set G. lower (fst (fst nx)) \<in> K \<and> lower (fst (snd nx)) \<in> K) \<and>
      (\<forall>k \<in> K. lower k = k))"

text \<open>
  What \<^verbatim>\<open>dist_dict\<close> holds for a key when level \<open>L\<close> starts, and when the search is
  over. The test \<^verbatim>\<open>abs(dist_dict[p]) > cur_level\<close> of line 247 writes a level only while
  the level is below 999, the absolute value of the start distance.
\<close>

definition dval :: "edge list \<Rightarrow> string \<Rightarrow> nat \<Rightarrow> string \<Rightarrow> int" where
  "dval G a L k = (if k \<in> below G a (min L 999) then int (lvl G a k) else - 999)"

definition final_dist :: "edge list \<Rightarrow> string \<Rightarrow> string \<Rightarrow> int" where
  "final_dist G a k = (if k \<in> below G a 999 then int (lvl G a k) else - 999)"

text \<open>
  The state of \<^verbatim>\<open>rec_fun\<close> when it is called for level \<open>L\<close>: the touched keys are those
  fewer than \<open>L\<close> hops away, the search set lies within \<open>L\<close> hops and holds every key
  exactly \<open>L\<close> hops away.
\<close>

definition level_inv ::
  "string set \<Rightarrow> edge list \<Rightarrow> string \<Rightarrow> nat \<Rightarrow> string list \<Rightarrow>
   (string, int) dict \<Rightarrow> (string, bool) dict \<Rightarrow> bool" where
  "level_inv K G a L ss dd nt =
     (map_of nt = (\<lambda>k. if k \<in> K then Some (k \<in> below G a L) else None) \<and>
      map_of dd = (\<lambda>k. if k \<in> K then Some (dval G a L k) else None) \<and>
      set ss \<subseteq> within G a L \<and> within G a L - below G a L \<subseteq> set ss)"

text \<open>The value \<^verbatim>\<open>calc_node_distances\<close> returns, written from the hop distances.\<close>

definition shape_result :: "string \<Rightarrow> (string \<times> string \<times> int) list \<Rightarrow> result" where
  "shape_result list_or_dict rows =
     (if list_or_dict = ''list'' then RList rows else RDict (rows_dict rows))"

definition dist_rows ::
  "edge list \<Rightarrow> string \<Rightarrow> bool \<Rightarrow> bool \<Rightarrow> node list \<Rightarrow> (string \<times> string \<times> int) list" where
  "dist_rows G a include_root keep nodes =
     map (\<lambda>x. (fst x, snd x, final_dist G a (lower (fst x))))
       (filter (\<lambda>x. keep \<or> final_dist G a (lower (fst x)) > start_distance) nodes)
     @ (if include_root then [(''root'', ''0.0.0'', final_dist G a ''root'')] else [])"





text \<open>
  The (name, version, distance) entries of a returned value, in either shape; a call that
  raised has none.
\<close>

fun entries :: "error + result \<Rightarrow> (string \<times> string \<times> int) set" where
  "entries (Inl e) = {}"
| "entries (Inr (RList rows)) = set rows"
| "entries (Inr (RDict d)) = {(a, b, n). map_of d (a, b) = Some n}"

text \<open>
  The distance a call assigns to a node: the distance of its entry in the returned value,
  and the start distance -999, which \<^verbatim>\<open>dist_dict\<close> holds for an untouched node, when the
  returned value leaves the node out (as it does without \<^verbatim>\<open>keep_untouched_nodes\<close>).
\<close>

fun assigned_distance :: "error + result \<Rightarrow> node \<Rightarrow> error + int" where
  "assigned_distance (Inl e) x = Inl e"
| "assigned_distance (Inr (RList rows)) x =
     Inr (case find (\<lambda>r. (fst r, fst (snd r)) = x) rows of
            None \<Rightarrow> start_distance
          | Some r \<Rightarrow> snd (snd r))"
| "assigned_distance (Inr (RDict d)) x =
     Inr (case map_of d x of None \<Rightarrow> start_distance | Some v \<Rightarrow> v)"

section \<open>Version staleness classifier\<close>

text \<open>Python's \<^verbatim>\<open>xs[i]\<close> for \<open>i \<ge> 0\<close> and \<^verbatim>\<open>xs[-1]\<close>: out of range raises \<^verbatim>\<open>IndexError\<close>.\<close>

definition index :: "'a list \<Rightarrow> nat \<Rightarrow> error + 'a" where
  "index xs i = (if i < length xs then Inr (xs ! i) else Inl IndexError)"

definition py_last :: "'a list \<Rightarrow> error + 'a" where
  "py_last xs = (if xs = [] then Inl IndexError else Inr (last xs))"

text \<open>\<^verbatim>\<open>s.split('.')\<close>: the runs between dots; a string without a dot is one run.\<close>

fun split_dot :: "string \<Rightarrow> string list" where
  "split_dot [] = [[]]"
| "split_dot (c # cs) =
     (if c = CHR ''.'' then [] # split_dot cs
      else (case split_dot cs of [] \<Rightarrow> [[c]] | t # ts \<Rightarrow> (c # t) # ts))"

text \<open>
  \<^verbatim>\<open>get_package_versions_from_pypi\<close> (lines 334 to 358). The query of the package index
  (\<^verbatim>\<open>yarg.get(package).release_ids\<close>, \<open>None\<close> when it raises) and the sort by
  \<^verbatim>\<open>LooseVersion\<close> belong to libraries and are parameters.
\<close>

definition get_package_versions_from_pypi ::
  "(string \<Rightarrow> string list option) \<Rightarrow> (string list \<Rightarrow> string list) \<Rightarrow> string \<Rightarrow>
   string list option" where
  "get_package_versions_from_pypi release_ids loose_sort package =
     (case release_ids package of
        None \<Rightarrow> None
      | Some rels0 \<Rightarrow>
          (let rels = loose_sort rels0 in if rels = [] then None else Some rels))"

record version_info =
  outdated :: "bool option"
  latest :: "string option"

record return_info =
  major_version :: version_info
  minor_version :: version_info
  code :: int

text \<open>
  The comprehension of lines 470 to 472; \<^verbatim>\<open>and\<close> reads the second segment of \<open>x\<close> only
  when the first one matches.
\<close>

fun minor_versions_of :: "string \<Rightarrow> string \<Rightarrow> string list \<Rightarrow> error + string list" where
  "minor_versions_of major_v minor_v [] = Inr []"
| "minor_versions_of major_v minor_v (x # xs) =
     (case index (split_dot x) 0 of
        Inl e \<Rightarrow> Inl e
      | Inr a \<Rightarrow>
         (case (if a = major_v
                then (case index (split_dot x) 1 of
                        Inl e \<Rightarrow> Inl e
                      | Inr b \<Rightarrow> Inr (b = minor_v))
                else Inr False) of
            Inl e \<Rightarrow> Inl e
          | Inr keep \<Rightarrow>
             (case minor_versions_of major_v minor_v xs of
                Inl e \<Rightarrow> Inl e
              | Inr rest \<Rightarrow> Inr (if keep then x # rest else rest))))"

text \<open>
  \<^verbatim>\<open>check_latest_major_minor_versions\<close> (lines 409 to 500). The order of
  \<^verbatim>\<open>pkg_resources.parse_version\<close> is the parameter \<open>parse_version_lt\<close>:
  \<open>parse_version_lt a b\<close> stands for \<^verbatim>\<open>parse_version(a) < parse_version(b)\<close>, and
  \<^verbatim>\<open>parse_version(a) > parse_version(b)\<close> is read as \<open>parse_version_lt b a\<close>.
\<close>

definition check_latest_major_minor_versions ::
  "(string \<Rightarrow> string list option) \<Rightarrow> (string list \<Rightarrow> string list) \<Rightarrow>
   (string \<Rightarrow> string \<Rightarrow> bool) \<Rightarrow> string \<Rightarrow> string option \<Rightarrow> error + return_info" where
  "check_latest_major_minor_versions release_ids loose_sort parse_version_lt package ver =
     (let return_info = \<lparr>major_version = \<lparr>outdated = None, latest = None\<rparr>,
                         minor_version = \<lparr>outdated = None, latest = None\<rparr>,
                         code = - 1\<rparr>
      in case get_package_versions_from_pypi release_ids loose_sort package of
           None \<Rightarrow> Inr return_info
         | Some versions \<Rightarrow>
            (case py_last versions of
               Inl e \<Rightarrow> Inl e
             | Inr latest_major_version \<Rightarrow>
                (case ver of
                   None \<Rightarrow>
                     Inr (return_info
                           \<lparr>major_version :=
                              \<lparr>outdated = Some True, latest = Some latest_major_version\<rparr>,
                            minor_version :=
                              \<lparr>outdated = Some True, latest = Some latest_major_version\<rparr>\<rparr>)
                 | Some v \<Rightarrow>
                     if parse_version_lt latest_major_version v
                     then Inr (return_info
                           \<lparr>code := 999,
                            major_version := \<lparr>outdated = Some False, latest = Some v\<rparr>,
                            minor_version := \<lparr>outdated = Some False, latest = Some v\<rparr>\<rparr>)
                     else
                      (let major_outdated = parse_version_lt v latest_major_version in
                       if major_outdated
                       then
                        (case index (split_dot v) 0 of
                           Inl e \<Rightarrow> Inl e
                         | Inr major_v \<Rightarrow>
                        (case index (split_dot v) 1 of
                           Inl e \<Rightarrow> Inl e
                         | Inr minor_v \<Rightarrow>
                        (case minor_versions_of major_v minor_v versions of
                           Inl e \<Rightarrow> Inl e
                         | Inr minor_versions \<Rightarrow>
                            if minor_versions = []
                            then Inr (return_info
                                  \<lparr>code := 1,
                                   major_version :=
                                     \<lparr>outdated = Some major_outdated,
                                      latest = Some latest_major_version\<rparr>,
                                   minor_version := \<lparr>outdated = None, latest = None\<rparr>\<rparr>)
                            else
                             (case py_last minor_versions of
                                Inl e \<Rightarrow> Inl e
                              | Inr latest_minor_version \<Rightarrow>
                                 (let minor_outdated = parse_version_lt v latest_minor_version
                                  in Inr (return_info
                                      \<lparr>code := 1,
                                       major_version :=
                                         \<lparr>outdated = Some major_outdated,
                                          latest = Some latest_major_version\<rparr>,
                                       minor_version :=
                                         \<lparr>outdated = Some minor_outdated,
                                          latest = Some latest_minor_version\<rparr>\<rparr>))))))
                       else Inr (return_info
                             \<lparr>code := 0,
                              major_version :=
                                \<lparr>outdated = Some major_outdated,
                                 latest = Some latest_major_version\<rparr>,
                              minor_version :=
                                \<lparr>outdated = Some False,
                                 latest = Some latest_major_version\<rparr>\<rparr>)))))"

subsection \<open>A lenient order of version strings\<close>

text \<open>
  Modelled from the spec: \<^verbatim>\<open>pkg_resources.parse_version\<close>, a library function that is
  not part of the repository's sources. The spec asks for a comparator that tolerates
  arbitrary dot-separated tokens and is a tokenized comparison that degrades to
  lexicographic order on non-numeric tokens: two numeric tokens compare as numbers, any
  other pair byte by byte. It is used where a theorem about the classifier, stated for
  any order, is shown at a concrete one.
\<close>

definition is_digit :: "char \<Rightarrow> bool" where
  "is_digit c = (48 \<le> (of_char c :: nat) \<and> (of_char c :: nat) \<le> 57)"

definition is_numeric :: "string \<Rightarrow> bool" where
  "is_numeric s = (s \<noteq> [] \<and> list_all is_digit s)"

definition num_of :: "string \<Rightarrow> nat" where
  "num_of s = foldl (\<lambda>n c. 10 * n + (of_char c - 48)) 0 s"

fun bytes_less :: "string \<Rightarrow> string \<Rightarrow> bool" where
  "bytes_less [] [] = False"
| "bytes_less [] (b # bs) = True"
| "bytes_less (a # as) [] = False"
| "bytes_less (a # as) (b # bs) =
     ((of_char a :: nat) < of_char b \<or> (a = b \<and> bytes_less as bs))"

definition token_less :: "string \<Rightarrow> string \<Rightarrow> bool" where
  "token_less a b =
     (if is_numeric a \<and> is_numeric b then num_of a < num_of b else bytes_less a b)"

fun tokens_less :: "string list \<Rightarrow> string list \<Rightarrow> bool" where
  "tokens_less [] [] = False"
| "tokens_less [] (b # bs) = True"
| "tokens_less (a # as) [] = False"
| "tokens_less (a # as) (b # bs) =
     (if token_less a b then True
      else if token_less b a then False
      else tokens_less as bs)"

definition lenient_lt :: "string \<Rightarrow> string \<Rightarrow> bool" where
  "lenient_lt a b = tokens_less (split_dot a) (split_dot b)"

section \<open>Manifest reconciler: \<^verbatim>\<open>compare_req_file_to_env\<close> (lines 540 to 592)\<close>

text \<open>
  A parsed requirement carries \<^verbatim>\<open>key\<close>, \<^verbatim>\<open>project_name\<close> and \<^verbatim>\<open>specs\<close>, a list of
  (operator, version). The parser and the environment are outside the sources: the parsed
  requirements (\<open>None\<close> when \<^verbatim>\<open>parse_req_file\<close> returns nothing) and
  \<^verbatim>\<open>venv.all_packages\<close>, a dict from key to \<^verbatim>\<open>Package\<close>, are arguments.
\<close>

record requirement =
  r_key :: string
  r_project_name :: string
  r_specs :: "(string \<times> string) list"

text \<open>Iterating a dict gives each key once.\<close>

definition dict_keys :: "('k, 'v) dict \<Rightarrow> 'k list" where
  "dict_keys d = remdups (map fst d)"

definition all_reqs_of ::
  "requirement list \<Rightarrow> (string, string \<times> (string \<times> string) list) dict" where
  "all_reqs_of parsed_req =
     foldl (\<lambda>d x. AList.update (r_key x) (r_project_name x, r_specs x) d) [] parsed_req"

definition req_no_version :: string where
  "req_no_version = ''-1''"

text \<open>Lines 579 to 585: the version the requirement asks for.\<close>

definition resolve_req_ver :: "(string \<times> string) list \<Rightarrow> error + string" where
  "resolve_req_ver specs =
     (if specs = [] then Inr req_no_version
      else (case index (map snd (filter (\<lambda>x. fst x = ''=='') specs)) 0 of
              Inl e \<Rightarrow> Inl e
            | Inr req_ver \<Rightarrow> Inr (if req_ver = [] then req_no_version else req_ver)))"

text \<open>The loop of lines 576 to 590 on the lists \<^verbatim>\<open>same\<close> and \<^verbatim>\<open>verdiff\<close>.\<close>

fun version_loop ::
  "(string, string \<times> (string \<times> string) list) dict \<Rightarrow> (string, package) dict \<Rightarrow>
   string list \<Rightarrow>
   (string \<times> string option) list \<times> (string \<times> string \<times> string option) list \<Rightarrow>
   error + ((string \<times> string option) list \<times> (string \<times> string \<times> string option) list)" where
  "version_loop all_reqs all_packages [] acc = Inr acc"
| "version_loop all_reqs all_packages (package # rest) acc =
     (case map_of all_packages package of
        None \<Rightarrow> Inl KeyError
      | Some pk \<Rightarrow>
         (let env_ver = p_version pk in
          case map_of all_reqs package of
            None \<Rightarrow> Inl KeyError
          | Some entry \<Rightarrow>
             (case resolve_req_ver (snd entry) of
                Inl e \<Rightarrow> Inl e
              | Inr req_ver \<Rightarrow>
                 if Some req_ver = env_ver
                 then version_loop all_reqs all_packages rest
                        (fst acc @ [(package, env_ver)], snd acc)
                 else version_loop all_reqs all_packages rest
                        (fst acc, snd acc @ [(package, req_ver, env_ver)]))))"

definition compare_req_file_to_env ::
  "requirement list option \<Rightarrow> (string, package) dict \<Rightarrow>
   error + ((string \<times> string option) list \<times> (string \<times> string \<times> string option) list \<times>
            string list \<times> string list) option" where
  "compare_req_file_to_env parsed_req all_packages =
     (case parsed_req of
        None \<Rightarrow> Inr None
      | Some reqs \<Rightarrow>
         (let all_reqs = all_reqs_of reqs;
              req_only = filter (\<lambda>x. map_of all_packages x = None) (dict_keys all_reqs);
              env_only = filter (\<lambda>x. map_of all_reqs x = None) (dict_keys all_packages);
              ver_check = filter (\<lambda>x. x \<notin> set req_only) (dict_keys all_reqs)
          in case version_loop all_reqs all_packages ver_check ([], []) of
               Inl e \<Rightarrow> Inl e
             | Inr (same, verdiff) \<Rightarrow> Inr (Some (same, verdiff, req_only, env_only))))"





section \<open>Properties\<close>

subsection \<open>The distance and touched dicts\<close>

lemma map_of_foldl_update:
  "map_of (foldl (\<lambda>d x. AList.update (f x) v d) d0 xs) k =
     (if k \<in> f ` set xs then Some v else map_of d0 k)"
  by (induction xs arbitrary: d0) (auto simp: update_conv')

lemma map_of_init_dict:
  "map_of (init_dict v ns) k = (if k \<in> node_keys ns then Some v else None)"
  by (simp add: init_dict_def node_keys_def map_of_foldl_update)

subsection \<open>Hop distance and the breadth-first search\<close>

lemma lower_char_idem: "lower_char (lower_char c) = lower_char c"
  by (simp add: lower_char_def Let_def)

lemma lower_idem: "lower (lower s) = lower s"
  by (simp add: lower_def lower_char_idem)

lemma adjacent_sym: "adjacent G u v \<Longrightarrow> adjacent G v u"
  by (auto simp: adjacent_def)

lemma hops_0_iff: "hops G a 0 v \<longleftrightarrow> v = a"
  by (auto elim: hops.cases intro: hops_0)

lemma hops_Suc_iff: "hops G a (Suc n) v \<longleftrightarrow> (\<exists>u. hops G a n u \<and> adjacent G u v)"
  by (auto elim: hops.cases intro: hops_Suc)

lemma hops_prepend: "hops G u n v \<Longrightarrow> adjacent G a u \<Longrightarrow> hops G a (Suc n) v"
proof (induction rule: hops.induct)
  case hops_0
  then show ?case using hops.hops_0 hops.hops_Suc by blast
next
  case (hops_Suc n w v)
  then show ?case using hops.hops_Suc by blast
qed

lemma hops_sym: "hops G a n b \<Longrightarrow> hops G b n a"
proof (induction rule: hops.induct)
  case hops_0
  show ?case by (rule hops.hops_0)
next
  case (hops_Suc n u v)
  then show ?case using hops_prepend adjacent_sym by blast
qed

lemma below_0: "below G a 0 = {}"
  by (simp add: below_def)

lemma below_Suc: "below G a (Suc n) = within G a n"
  by (auto simp: below_def within_def less_Suc_eq_le)

lemma within_0: "within G a 0 = {a}"
  by (auto simp: within_def hops_0_iff)

lemma within_Suc: "within G a (Suc n) = within G a n \<union> {v. \<exists>u \<in> within G a n. adjacent G u v}"
proof (intro set_eqI iffI)
  fix v assume "v \<in> within G a (Suc n)"
  then obtain m where m: "m \<le> Suc n" "hops G a m v" by (auto simp: within_def)
  show "v \<in> within G a n \<union> {v. \<exists>u \<in> within G a n. adjacent G u v}"
  proof (cases m)
    case 0
    with m show ?thesis by (auto simp: within_def)
  next
    case (Suc m')
    with m obtain u where "hops G a m' u" "adjacent G u v" by (auto simp: hops_Suc_iff)
    with m Suc show ?thesis by (auto simp: within_def)
  qed
next
  fix v assume "v \<in> within G a n \<union> {v. \<exists>u \<in> within G a n. adjacent G u v}"
  then show "v \<in> within G a (Suc n)"
  proof
    assume "v \<in> within G a n"
    then show ?thesis by (auto simp: within_def intro: le_SucI)
  next
    assume "v \<in> {v. \<exists>u \<in> within G a n. adjacent G u v}"
    then obtain u m where "m \<le> n" "hops G a m u" "adjacent G u v" by (auto simp: within_def)
    then have "hops G a (Suc m) v" "Suc m \<le> Suc n" by (auto intro: hops_Suc)
    then show ?thesis unfolding within_def by blast
  qed
qed

lemma below_subset_within: "below G a n \<subseteq> within G a n"
  by (auto simp: below_def within_def intro: less_imp_le)

lemma below_mono: "m \<le> n \<Longrightarrow> below G a m \<subseteq> below G a n"
  by (auto simp: below_def intro: less_le_trans)

lemma lvl_hops: "hops G a n v \<Longrightarrow> hops G a (lvl G a v) v"
  unfolding lvl_def by (rule LeastI)

lemma lvl_le: "hops G a n v \<Longrightarrow> lvl G a v \<le> n"
  unfolding lvl_def by (rule Least_le)

lemma lvl_frontier: "v \<in> within G a n \<Longrightarrow> v \<notin> below G a n \<Longrightarrow> lvl G a v = n"
proof -
  assume w: "v \<in> within G a n" and b: "v \<notin> below G a n"
  from w obtain m where m: "m \<le> n" "hops G a m v" by (auto simp: within_def)
  have "\<not> lvl G a v < n" using b lvl_hops[OF m(2)] by (auto simp: below_def)
  moreover have "lvl G a v \<le> m" by (rule lvl_le[OF m(2)])
  ultimately show ?thesis using m by simp
qed

lemma in_below_iff: "v \<in> below G a n \<longleftrightarrow> (\<exists>m. hops G a m v) \<and> lvl G a v < n"
proof
  assume "v \<in> below G a n"
  then obtain m where "m < n" "hops G a m v" by (auto simp: below_def)
  then show "(\<exists>m. hops G a m v) \<and> lvl G a v < n" using lvl_le by fastforce
next
  assume "(\<exists>m. hops G a m v) \<and> lvl G a v < n"
  then show "v \<in> below G a n" using lvl_hops by (auto simp: below_def)
qed

lemma adjacent_closed: "closed_graph K G \<Longrightarrow> adjacent G u v \<Longrightarrow> v \<in> K"
  by (auto simp: closed_graph_def adjacent_def)

lemma hops_closed: "hops G a n v \<Longrightarrow> closed_graph K G \<Longrightarrow> a \<in> K \<Longrightarrow> v \<in> K"
  by (induction rule: hops.induct) (auto intro: adjacent_closed)

lemma within_closed: "closed_graph K G \<Longrightarrow> a \<in> K \<Longrightarrow> within G a n \<subseteq> K"
  by (auto simp: within_def intro: hops_closed)

lemma untouched_ends_total:
  assumes "\<forall>nx \<in> set xs. map_of nt (sel nx) \<noteq> None"
  shows "\<exists>ks. untouched_ends sel nt xs = Inr ks \<and>
           set ks = {v. \<exists>nx \<in> set xs. v = sel nx \<and> map_of nt v = Some False}"
  using assms
proof (induction xs)
  case Nil
  then show ?case by simp
next
  case (Cons x xs)
  then obtain ks where ks: "untouched_ends sel nt xs = Inr ks"
    "set ks = {v. \<exists>nx \<in> set xs. v = sel nx \<and> map_of nt v = Some False}"
    by auto
  from Cons.prems obtain t where t: "map_of nt (sel x) = Some t" by auto
  show ?case using ks t by auto
qed

lemma filter_used_edges:
  "(if \<not> ir then filter root_not_in_str (filter P es) else filter P es)
     = filter P (used_edges ir es)"
  by (auto simp: used_edges_def intro: filter_cong)

lemma far_ends_filter:
  "{v. \<exists>nx \<in> set (filter (\<lambda>x. p = f x) G). v = g nx \<and> Q v}
     = {v. (\<exists>nx \<in> set G. p = f nx \<and> v = g nx) \<and> Q v}"
  by auto

lemma loop_body_step:
  assumes cg: "closed_graph K (used_edges ir es)" and ne: "es \<noteq> []" and pK: "p \<in> K"
    and dK: "dom (map_of dd) = K" and tK: "dom (map_of nt) = K"
  shows "\<exists>d dd' nxt'.
      loop_body (Some es) ir cur p (dd, nt, nxt) = Inr (dd', AList.update p True nt, nxt') \<and>
      map_of dd p = Some d \<and>
      map_of dd' = (if \<bar>d\<bar> > cur then (map_of dd)(p \<mapsto> cur) else map_of dd) \<and>
      set nxt' = set nxt \<union>
        {v. adjacent (used_edges ir es) p v \<and> v \<noteq> p \<and> map_of nt v = Some False}"
proof -
  let ?G = "used_edges ir es"
  let ?nt = "AList.update p True nt"
  from pK dK obtain d where d: "map_of dd p = Some d" by auto
  have lp: "lower p = p" using cg pK by (simp add: closed_graph_def)
  define dec where "dec = filter (\<lambda>x. lower p = lower (fst (fst x))) ?G"
  define anc where "anc = filter (\<lambda>x. lower p = lower (fst (snd x))) ?G"
  have nt_dom: "map_of ?nt k \<noteq> None" if "k \<in> K" for k
    using that tK by (auto simp: update_conv')
  have "\<forall>nx \<in> set dec. map_of ?nt (lower (fst (snd nx))) \<noteq> None"
    using cg nt_dom by (auto simp: dec_def closed_graph_def)
  from untouched_ends_total[OF this] obtain ds where ds:
    "untouched_ends (\<lambda>nx. lower (fst (snd nx))) ?nt dec = Inr ds"
    "set ds = {v. \<exists>nx \<in> set dec. v = lower (fst (snd nx)) \<and> map_of ?nt v = Some False}"
    by blast
  have "\<forall>nx \<in> set anc. map_of ?nt (lower (fst (fst nx))) \<noteq> None"
    using cg nt_dom by (auto simp: anc_def closed_graph_def)
  from untouched_ends_total[OF this] obtain as where as:
    "untouched_ends (\<lambda>nx. lower (fst (fst nx))) ?nt anc = Inr as"
    "set as = {v. \<exists>nx \<in> set anc. v = lower (fst (fst nx)) \<and> map_of ?nt v = Some False}"
    by blast
  define dd' where "dd' = (if \<bar>d\<bar> > cur then AList.update p cur dd else dd)"
  have body: "loop_body (Some es) ir cur p (dd, nt, nxt) = Inr (dd', ?nt, nxt @ ds @ as)"
    using ne d ds(1) as(1)
    by (simp add: loop_body_def get_direct_links_to_any_package_def Let_def
        filter_used_edges dec_def anc_def dd'_def del: Not_eq_iff not_None_eq)
  have m: "map_of dd' = (if \<bar>d\<bar> > cur then (map_of dd)(p \<mapsto> cur) else map_of dd)"
    by (simp add: dd'_def update_conv')
  have touched: "map_of ?nt v = Some False \<longleftrightarrow> v \<noteq> p \<and> map_of nt v = Some False" for v
    by (simp add: update_conv')
  have adj: "adjacent ?G p v \<longleftrightarrow>
      (\<exists>nx \<in> set ?G. p = lower (fst (fst nx)) \<and> v = lower (fst (snd nx))) \<or>
      (\<exists>nx \<in> set ?G. p = lower (fst (snd nx)) \<and> v = lower (fst (fst nx)))" for v
    unfolding adjacent_def by blast
  have ds': "set ds = {v. (\<exists>nx \<in> set ?G. p = lower (fst (fst nx)) \<and> v = lower (fst (snd nx)))
      \<and> v \<noteq> p \<and> map_of nt v = Some False}"
    unfolding ds(2) touched dec_def lp by (rule far_ends_filter)
  have as': "set as = {v. (\<exists>nx \<in> set ?G. p = lower (fst (snd nx)) \<and> v = lower (fst (fst nx)))
      \<and> v \<noteq> p \<and> map_of nt v = Some False}"
    unfolding as(2) touched anc_def lp by (rule far_ends_filter)
  have s: "set (nxt @ ds @ as) = set nxt \<union>
        {v. adjacent ?G p v \<and> v \<noteq> p \<and> map_of nt v = Some False}"
    unfolding set_append ds' as' adj by blast
  from body d m s show ?thesis by blast
qed

lemma for_loop_level:
  assumes cg: "closed_graph K (used_edges ir es)" and ne: "es \<noteq> []" and cur: "0 \<le> cur"
    and ss: "set ss \<subseteq> K"
    and dK: "dom (map_of dd) = K" and tK: "dom (map_of nt) = K"
  shows "\<exists>dd' nt' nxt'.
      for_loop (Some es) ir cur ss (dd, nt, nxt) = Inr (dd', nt', nxt') \<and>
      map_of nt' = (\<lambda>k. if k \<in> set ss then Some True else map_of nt k) \<and>
      map_of dd' = (\<lambda>k. if k \<in> set ss \<and> (\<exists>d. map_of dd k = Some d \<and> \<bar>d\<bar> > cur)
                         then Some cur else map_of dd k) \<and>
      set nxt \<union> {v. \<exists>u \<in> set ss. adjacent (used_edges ir es) u v \<and>
                      map_of nt v = Some False \<and> v \<notin> set ss} \<subseteq> set nxt' \<and>
      set nxt' \<subseteq> set nxt \<union> {v. \<exists>u \<in> set ss. adjacent (used_edges ir es) u v \<and>
                      map_of nt v = Some False}"
  using ss dK tK
proof (induction ss arbitrary: dd nt nxt)
  case Nil
  then show ?case by simp
next
  case (Cons p ps)
  let ?G = "used_edges ir es"
  from Cons.prems have pK: "p \<in> K" and psK: "set ps \<subseteq> K" by auto
  from loop_body_step[OF cg ne pK Cons.prems(2) Cons.prems(3), of cur nxt]
  obtain d dd1 nxt1 where
    b: "loop_body (Some es) ir cur p (dd, nt, nxt) = Inr (dd1, AList.update p True nt, nxt1)"
    and d: "map_of dd p = Some d"
    and dd1: "map_of dd1 = (if \<bar>d\<bar> > cur then (map_of dd)(p \<mapsto> cur) else map_of dd)"
    and nxt1: "set nxt1 = set nxt \<union> {v. adjacent ?G p v \<and> v \<noteq> p \<and> map_of nt v = Some False}"
    by blast
  let ?nt1 = "AList.update p True nt"
  have nt1: "map_of ?nt1 = (map_of nt)(p \<mapsto> True)" by (simp add: update_conv')
  have dK1: "dom (map_of dd1) = K" using dd1 d Cons.prems(2) pK by (auto split: if_splits)
  have tK1: "dom (map_of ?nt1) = K" using nt1 Cons.prems(3) pK by auto
  from Cons.IH[OF psK dK1 tK1, of nxt1]
  obtain dd' nt' nxt' where
    r: "for_loop (Some es) ir cur ps (dd1, ?nt1, nxt1) = Inr (dd', nt', nxt')"
    and nt': "map_of nt' = (\<lambda>k. if k \<in> set ps then Some True else map_of ?nt1 k)"
    and dd': "map_of dd' = (\<lambda>k. if k \<in> set ps \<and> (\<exists>d. map_of dd1 k = Some d \<and> \<bar>d\<bar> > cur)
                         then Some cur else map_of dd1 k)"
    and lo: "set nxt1 \<union> {v. \<exists>u \<in> set ps. adjacent ?G u v \<and>
                      map_of ?nt1 v = Some False \<and> v \<notin> set ps} \<subseteq> set nxt'"
    and hi: "set nxt' \<subseteq> set nxt1 \<union> {v. \<exists>u \<in> set ps. adjacent ?G u v \<and>
                      map_of ?nt1 v = Some False}"
    by blast
  have 1: "for_loop (Some es) ir cur (p # ps) (dd, nt, nxt) = Inr (dd', nt', nxt')"
    using b r by simp
  have 2: "map_of nt' = (\<lambda>k. if k \<in> set (p # ps) then Some True else map_of nt k)"
    unfolding nt' nt1 by (auto simp: fun_eq_iff)
  have 3: "map_of dd' = (\<lambda>k. if k \<in> set (p # ps) \<and> (\<exists>d. map_of dd k = Some d \<and> \<bar>d\<bar> > cur)
                         then Some cur else map_of dd k)"
    unfolding dd' dd1 using d cur by (auto simp: fun_eq_iff)
  have 4: "set nxt \<union> {v. \<exists>u \<in> set (p # ps). adjacent ?G u v \<and>
                      map_of nt v = Some False \<and> v \<notin> set (p # ps)} \<subseteq> set nxt'"
  proof
    fix v assume "v \<in> set nxt \<union> {v. \<exists>u \<in> set (p # ps). adjacent ?G u v \<and>
                      map_of nt v = Some False \<and> v \<notin> set (p # ps)}"
    then consider "v \<in> set nxt"
      | "adjacent ?G p v" "map_of nt v = Some False" "v \<noteq> p"
      | u where "u \<in> set ps" "adjacent ?G u v" "map_of nt v = Some False" "v \<noteq> p" "v \<notin> set ps"
      by auto
    then show "v \<in> set nxt'"
    proof cases
      case 1
      then show ?thesis using lo nxt1 by auto
    next
      case 2
      then show ?thesis using lo nxt1 by auto
    next
      case 3
      then have "map_of ?nt1 v = Some False" by (simp add: nt1)
      with 3 show ?thesis using lo by auto
    qed
  qed
  have 5: "set nxt' \<subseteq> set nxt \<union> {v. \<exists>u \<in> set (p # ps). adjacent ?G u v \<and>
                      map_of nt v = Some False}"
  proof
    fix v assume "v \<in> set nxt'"
    with hi have "v \<in> set nxt1 \<or> (\<exists>u \<in> set ps. adjacent ?G u v \<and> map_of ?nt1 v = Some False)"
      by auto
    then show "v \<in> set nxt \<union> {v. \<exists>u \<in> set (p # ps). adjacent ?G u v \<and>
                      map_of nt v = Some False}"
      unfolding nxt1 nt1 by (auto split: if_splits)
  qed
  from 1 2 3 4 5 show ?case by blast
qed

lemma dval_processed:
  assumes "k \<in> within G a L"
  shows "(if \<bar>dval G a L k\<bar> > int L then int L else dval G a L k) = dval G a (Suc L) k"
proof (cases "k \<in> below G a (min L 999)")
  case True
  then have l: "lvl G a k < min L 999" by (simp add: in_below_iff)
  have "min L 999 \<le> min (Suc L) 999" by simp
  from below_mono[OF this] True have "k \<in> below G a (min (Suc L) 999)" by blast
  with True l show ?thesis by (simp add: dval_def)
next
  case False
  show ?thesis
  proof (cases "L < 999")
    case True
    with False have nb: "k \<notin> below G a L" by (simp add: min_def)
    have "lvl G a k = L" by (rule lvl_frontier[OF assms nb])
    moreover have "min (Suc L) 999 = Suc L" using True by simp
    ultimately show ?thesis using False True assms by (simp add: dval_def below_Suc)
  next
    case ge: False
    then have "min (Suc L) 999 = min L 999" by simp
    with False ge show ?thesis by (simp add: dval_def)
  qed
qed

lemma dval_unprocessed:
  assumes "k \<in> within G a L \<longrightarrow> k \<in> below G a L"
  shows "dval G a (Suc L) k = dval G a L k"
proof (cases "L < 999")
  case True
  then have "min (Suc L) 999 = Suc L" "min L 999 = L" by simp_all
  then show ?thesis using assms below_subset_within[of G a L] by (auto simp: dval_def below_Suc)
next
  case False
  then have "min (Suc L) 999 = min L 999" by simp
  then show ?thesis by (simp add: dval_def)
qed

lemma level_step:
  assumes cg: "closed_graph K (used_edges ir es)" and ne: "es \<noteq> []" and aK: "a \<in> K"
    and inv: "level_inv K (used_edges ir es) a L ss dd nt"
  shows "\<exists>dd' nt' nxt'.
      for_loop (Some es) ir (int L) ss (dd, nt, []) = Inr (dd', nt', nxt') \<and>
      level_inv K (used_edges ir es) a (Suc L) (list_of_set set_order nxt') dd' nt'"
proof -
  let ?G = "used_edges ir es"
  from inv have
    nt: "map_of nt = (\<lambda>k. if k \<in> K then Some (k \<in> below ?G a L) else None)" and
    dd: "map_of dd = (\<lambda>k. if k \<in> K then Some (dval ?G a L k) else None)" and
    f1: "set ss \<subseteq> within ?G a L" and f2: "within ?G a L - below ?G a L \<subseteq> set ss"
    by (simp_all add: level_inv_def)
  have wK: "within ?G a n \<subseteq> K" for n by (rule within_closed[OF cg aK])
  have ssK: "set ss \<subseteq> K" using f1 wK by blast
  have dK: "dom (map_of dd) = K" unfolding dd by (auto split: if_splits)
  have tK: "dom (map_of nt) = K" unfolding nt by (auto split: if_splits)
  from for_loop_level[OF cg ne _ ssK dK tK, of "int L" "[]"]
  obtain dd' nt' nxt' where
    r: "for_loop (Some es) ir (int L) ss (dd, nt, []) = Inr (dd', nt', nxt')"
    and nt': "map_of nt' = (\<lambda>k. if k \<in> set ss then Some True else map_of nt k)"
    and dd': "map_of dd' = (\<lambda>k. if k \<in> set ss \<and> (\<exists>d. map_of dd k = Some d \<and> \<bar>d\<bar> > int L)
                         then Some (int L) else map_of dd k)"
    and lo: "{v. \<exists>u \<in> set ss. adjacent ?G u v \<and>
                      map_of nt v = Some False \<and> v \<notin> set ss} \<subseteq> set nxt'"
    and hi: "set nxt' \<subseteq> {v. \<exists>u \<in> set ss. adjacent ?G u v \<and> map_of nt v = Some False}"
    by auto
  have in_ss: "k \<in> within ?G a L \<longrightarrow> k \<in> below ?G a L" if "k \<notin> set ss" for k
    using that f2 by blast
  have 1: "map_of nt' = (\<lambda>k. if k \<in> K then Some (k \<in> below ?G a (Suc L)) else None)"
  proof
    fix k
    show "map_of nt' k = (if k \<in> K then Some (k \<in> below ?G a (Suc L)) else None)"
    proof (cases "k \<in> set ss")
      case True
      then show ?thesis using f1 ssK by (auto simp: nt' below_Suc)
    next
      case False
      then show ?thesis
        using in_ss[OF False] below_subset_within[of ?G a L] by (auto simp: nt' nt below_Suc)
    qed
  qed
  have 2: "map_of dd' = (\<lambda>k. if k \<in> K then Some (dval ?G a (Suc L) k) else None)"
  proof
    fix k
    show "map_of dd' k = (if k \<in> K then Some (dval ?G a (Suc L) k) else None)"
    proof (cases "k \<in> set ss")
      case True
      then have kK: "k \<in> K" and kw: "k \<in> within ?G a L" using ssK f1 by auto
      have "map_of dd' k =
          Some (if \<bar>dval ?G a L k\<bar> > int L then int L else dval ?G a L k)"
        using True kK by (simp add: dd' dd)
      then show ?thesis unfolding dval_processed[OF kw] using kK by simp
    next
      case False
      then show ?thesis using dval_unprocessed[OF in_ss[OF False]] by (simp add: dd' dd)
    qed
  qed
  have 3: "set (list_of_set set_order nxt') \<subseteq> within ?G a (Suc L)"
    using hi f1 by (auto simp: within_Suc)
  have 4: "within ?G a (Suc L) - below ?G a (Suc L) \<subseteq> set (list_of_set set_order nxt')"
  proof
    fix v assume "v \<in> within ?G a (Suc L) - below ?G a (Suc L)"
    then have v: "v \<in> within ?G a (Suc L)" "v \<notin> within ?G a L" by (auto simp: below_Suc)
    then obtain u where u: "u \<in> within ?G a L" "adjacent ?G u v" by (auto simp: within_Suc)
    have "u \<notin> below ?G a L"
    proof
      assume "u \<in> below ?G a L"
      then obtain m where "m < L" "hops ?G a m u" by (auto simp: below_def)
      then have "hops ?G a (Suc m) v" "Suc m \<le> L" using u(2) by (auto intro: hops_Suc)
      then have "v \<in> within ?G a L" unfolding within_def by blast
      with v show False by simp
    qed
    with u f2 have us: "u \<in> set ss" by blast
    have vK: "v \<in> K" using v wK by blast
    have "v \<notin> below ?G a L" using v below_subset_within[of ?G a L] by blast
    then have "map_of nt v = Some False" using vK by (simp add: nt)
    moreover have "v \<notin> set ss" using v f1 by blast
    ultimately show "v \<in> set (list_of_set set_order nxt')" using lo us u(2) by auto
  qed
  from r 1 2 3 4 show ?thesis unfolding level_inv_def by blast
qed

lemma within_stable:
  assumes "within G a (Suc L) = within G a L"
  shows "within G a (L + n) = within G a L"
proof (induction n)
  case 0
  show ?case by simp
next
  case (Suc n)
  have "within G a (Suc (L + n)) = within G a (L + n) \<union> {v. \<exists>u \<in> within G a (L + n). adjacent G u v}"
    by (rule within_Suc)
  also have "\<dots> = within G a L \<union> {v. \<exists>u \<in> within G a L. adjacent G u v}"
    by (simp add: Suc.IH)
  also have "\<dots> = within G a (Suc L)" by (simp add: within_Suc)
  finally show ?case using assms by simp
qed

lemma level_final:
  assumes inv: "level_inv K G a (Suc L) [] dd nt"
  shows "map_of dd = (\<lambda>k. if k \<in> K then Some (final_dist G a k) else None)"
proof -
  from inv have dd: "map_of dd = (\<lambda>k. if k \<in> K then Some (dval G a (Suc L) k) else None)"
    and e: "within G a (Suc L) - below G a (Suc L) \<subseteq> {}"
    by (simp_all add: level_inv_def)
  have st: "within G a (Suc L) = within G a L"
    using e by (auto simp: below_Suc within_Suc)
  have reach: "v \<in> within G a L" if "hops G a n v" for n v
  proof -
    have "n \<le> L + n" by simp
    with that have "v \<in> within G a (L + n)" unfolding within_def by blast
    then show ?thesis by (simp add: within_stable[OF st])
  qed
  have eq: "dval G a (Suc L) k = final_dist G a k" for k
  proof -
    have "k \<in> below G a (min (Suc L) 999) \<longleftrightarrow> k \<in> below G a 999"
    proof
      assume "k \<in> below G a (min (Suc L) 999)"
      then show "k \<in> below G a 999" using below_mono[of "min (Suc L) 999" 999 G a] by auto
    next
      assume b: "k \<in> below G a 999"
      then obtain n where "hops G a n k" by (auto simp: below_def)
      then have "k \<in> below G a (Suc L)" using reach by (simp add: below_Suc)
      with b show "k \<in> below G a (min (Suc L) 999)" by (auto simp: in_below_iff)
    qed
    then show ?thesis by (simp add: dval_def final_dist_def)
  qed
  show ?thesis by (simp add: dd eq cong: if_cong)
qed

lemma rec_fun_levels:
  assumes cg: "closed_graph K (used_edges ir es)" and ne: "es \<noteq> []" and aK: "a \<in> K"
  shows "level_inv K (used_edges ir es) a L ss dd nt \<Longrightarrow>
     \<exists>dd' nt'. rec_fun set_order (Some es) ir ss (int L) (dd, nt) = Inr (dd', nt') \<and>
        map_of dd' = (\<lambda>k. if k \<in> K then Some (final_dist (used_edges ir es) a k) else None)"
proof (induction "rec_measure ss nt" arbitrary: L ss dd nt rule: less_induct)
  case less
  from level_step[OF cg ne aK less.prems]
  obtain dd1 nt1 nxt where
    r: "for_loop (Some es) ir (int L) ss (dd, nt, []) = Inr (dd1, nt1, nxt)"
    and i: "level_inv K (used_edges ir es) a (Suc L) (list_of_set set_order nxt) dd1 nt1"
    by blast
  show ?case
  proof (cases "list_of_set set_order nxt = []")
    case True
    with i have "map_of dd1 = (\<lambda>k. if k \<in> K then Some (final_dist (used_edges ir es) a k) else None)"
      using level_final by simp
    moreover have "rec_fun set_order (Some es) ir ss (int L) (dd, nt) = Inr (dd1, nt1)"
      using r True by (subst rec_fun.simps) simp
    ultimately show ?thesis by blast
  next
    case False
    have m: "rec_measure (list_of_set set_order nxt) nt1 < rec_measure ss nt"
      by (rule rec_measure_decreases[OF r False])
    from less.hyps[OF m i] obtain dd' nt' where
      "rec_fun set_order (Some es) ir (list_of_set set_order nxt) (int (Suc L)) (dd1, nt1) = Inr (dd', nt')"
      "map_of dd' = (\<lambda>k. if k \<in> K then Some (final_dist (used_edges ir es) a k) else None)"
      by blast
    moreover have "rec_fun set_order (Some es) ir ss (int L) (dd, nt)
        = rec_fun set_order (Some es) ir (list_of_set set_order nxt) (int (Suc L)) (dd1, nt1)"
      using r False by (subst rec_fun.simps) (simp add: add.commute)
    ultimately show ?thesis by auto
  qed
qed

lemma lower_root: "lower ''root'' = ''root''"
  by (simp add: lower_def lower_char_def)

lemma graph_keys_lower: "k \<in> graph_keys ir ns \<Longrightarrow> lower k = k"
  by (auto simp: graph_keys_def node_keys_def lower_idem lower_root split: if_splits)

lemma closed_graph_keys:
  "edges_closed ir ns G \<Longrightarrow> closed_graph (graph_keys ir ns) G"
  by (simp add: closed_graph_def edges_closed_def graph_keys_lower)

lemma map_of_start_dict:
  "map_of (if ir then AList.update ''root'' v (init_dict v ns) else init_dict v ns)
     = (\<lambda>k. if k \<in> graph_keys ir ns then Some v else None)"
  by (auto simp: fun_eq_iff update_conv' map_of_init_dict graph_keys_def)

lemma level_inv_start:
  "level_inv (graph_keys ir ns) G a 0 [a]
     (if ir then AList.update ''root'' start_distance (init_dict start_distance ns)
      else init_dict start_distance ns)
     (if ir then AList.update ''root'' False (init_dict False ns) else init_dict False ns)"
  unfolding level_inv_def map_of_start_dict
  by (simp add: below_0 within_0 dval_def start_distance_def cong: if_cong)

lemma node_rows_result:
  assumes "map_of dd = (\<lambda>k. if k \<in> K then Some (f k) else None)"
    and "node_keys ns \<subseteq> K"
  shows "node_rows dd keep ns =
     Inr (map (\<lambda>x. (fst x, snd x, f (lower (fst x))))
            (filter (\<lambda>x. keep \<or> f (lower (fst x)) > start_distance) ns))"
  using assms(2)
proof (induction ns)
  case Nil
  show ?case by simp
next
  case (Cons x xs)
  then have "lower (fst x) \<in> K" "node_keys xs \<subseteq> K" by (auto simp: node_keys_def)
  with Cons.IH show ?case by (simp add: assms(1))
qed

lemma calc_node_distances_result:
  assumes cl: "edges_closed ir ns (used_edges ir es)" and ne: "es \<noteq> []"
    and orig: "lower origin \<in> graph_keys ir ns"
  shows "calc_node_distances set_order origin (Some ns) (Some es) ir keep shape =
     Inr (shape_result shape (dist_rows (used_edges ir es) (lower origin) ir keep ns))"
proof -
  let ?G = "used_edges ir es"
  let ?K = "graph_keys ir ns"
  let ?a = "lower origin"
  let ?dd0 = "if ir then AList.update ''root'' start_distance (init_dict start_distance ns)
      else init_dict start_distance ns"
  let ?nt0 = "if ir then AList.update ''root'' False (init_dict False ns) else init_dict False ns"
  have cg: "closed_graph ?K ?G" by (rule closed_graph_keys[OF cl])
  from rec_fun_levels[OF cg ne orig level_inv_start, where set_order = set_order]
  obtain dd nt where
    r: "rec_fun set_order (Some es) ir [?a] 0 (?dd0, ?nt0) = Inr (dd, nt)"
    and dd: "map_of dd = (\<lambda>k. if k \<in> ?K then Some (final_dist ?G ?a k) else None)"
    by auto
  have present: "map_of ?dd0 ?a \<noteq> None" using orig by (simp add: map_of_start_dict)
  have sub: "node_keys ns \<subseteq> ?K" by (auto simp: graph_keys_def)
  have rows: "node_rows dd keep ns =
     Inr (map (\<lambda>x. (fst x, snd x, final_dist ?G ?a (lower (fst x))))
            (filter (\<lambda>x. keep \<or> final_dist ?G ?a (lower (fst x)) > start_distance) ns))"
    by (rule node_rows_result[OF dd sub])
  have root: "ir \<Longrightarrow> map_of dd ''root'' = Some (final_dist ?G ?a ''root'')"
    by (simp add: dd graph_keys_def)
  show ?thesis
    using present r rows root
    by (simp add: calc_node_distances_def Let_def lower_idem shape_result_def dist_rows_def
        del: not_None_eq)
qed

subsection \<open>Distances returned by \<^verbatim>\<open>calc_node_distances\<close>\<close>


lemma map_of_foldl_rows:
  assumes "\<forall>r \<in> set rws. snd (snd r) = f (fst r)"
  shows "map_of (foldl (\<lambda>d r. AList.update (fst r, fst (snd r)) (snd (snd r)) d) d0 rws) (a, b)
     = (if \<exists>d. (a, b, d) \<in> set rws then Some (f a) else map_of d0 (a, b))"
  using assms
proof (induction rws arbitrary: d0)
  case Nil
  show ?case by simp
next
  case (Cons r rws)
  obtain a' b' d' where r: "r = (a', b', d')" by (cases r)
  from Cons.prems have d': "d' = f a'" and rest: "\<forall>r \<in> set rws. snd (snd r) = f (fst r)"
    by (auto simp: r)
  show ?case
    unfolding foldl_Cons Cons.IH[OF rest]
    by (auto simp: r d' update_conv')
qed

lemma entries_shape_result:
  assumes "\<forall>r \<in> set rws. snd (snd r) = f (fst r)"
  shows "entries (Inr (shape_result shape rws)) = set rws"
proof -
  have fn: "d = f a" if "(a, b, d) \<in> set rws" for a b d
    using assms that by force
  have mp: "map_of (rows_dict rws) (a, b)
      = (if \<exists>d. (a, b, d) \<in> set rws then Some (f a) else None)" for a b
    unfolding rows_dict_def using map_of_foldl_rows[OF assms, of "[]" a b] by simp
  have m: "map_of (rows_dict rws) (a, b) = Some n \<longleftrightarrow> (a, b, n) \<in> set rws" for a b n
  proof
    assume "map_of (rows_dict rws) (a, b) = Some n"
    then obtain d where d: "(a, b, d) \<in> set rws" and n: "n = f a"
      unfolding mp by (auto split: if_splits)
    from fn[OF d] n have "d = n" by simp
    with d show "(a, b, n) \<in> set rws" by simp
  next
    assume i: "(a, b, n) \<in> set rws"
    from fn[OF i] i show "map_of (rows_dict rws) (a, b) = Some n" unfolding mp by auto
  qed
  have "entries (Inr (RDict (rows_dict rws))) = set rws"
    by (auto simp: m)
  then show ?thesis by (simp add: shape_result_def)
qed

lemma assigned_shape_result:
  assumes "\<forall>r \<in> set rws. snd (snd r) = f (fst r)"
  shows "assigned_distance (Inr (shape_result shape rws)) (a, b)
     = Inr (if \<exists>d. (a, b, d) \<in> set rws then f a else start_distance)"
proof (cases "shape = ''list''")
  case True
  show ?thesis
  proof (cases "find (\<lambda>r. (fst r, fst (snd r)) = (a, b)) rws")
    case None
    then have "\<not> (\<exists>d. (a, b, d) \<in> set rws)" by (auto simp: find_None_iff)
    with None True show ?thesis by (simp add: shape_result_def)
  next
    case (Some r)
    then have "r \<in> set rws" "fst r = a" "fst (snd r) = b"
      by (auto simp: find_Some_iff in_set_conv_nth)
    then have "r = (a, b, snd (snd r))" by (simp add: prod_eq_iff)
    with \<open>r \<in> set rws\<close> have "(a, b, snd (snd r)) \<in> set rws" by simp
    moreover from this have "snd (snd r) = f a" using assms by force
    ultimately have "(a, b, snd (snd r)) \<in> set rws" "snd (snd r) = f a" by simp_all
    with Some True show ?thesis by (auto simp: shape_result_def)
  qed
next
  case False
  have "map_of (rows_dict rws) (a, b) = (if \<exists>d. (a, b, d) \<in> set rws then Some (f a) else None)"
    unfolding rows_dict_def using map_of_foldl_rows[OF assms, of "[]" a b] by simp
  with False show ?thesis by (simp add: shape_result_def)
qed

lemma dist_rows_functional:
  "\<forall>r \<in> set (dist_rows G a ir keep ns). snd (snd r) = final_dist G a (lower (fst r))"
  by (auto simp: dist_rows_def lower_root)



lemma final_dist_range: "final_dist G a v = - 999 \<or> 0 \<le> final_dist G a v"
  by (simp add: final_dist_def)

lemma final_dist_sym: "final_dist G a b = final_dist G b a"
proof -
  have e: "hops G a n b \<longleftrightarrow> hops G b n a" for n using hops_sym by blast
  then have "lvl G a b = lvl G b a" by (simp add: lvl_def)
  moreover have "b \<in> below G a 999 \<longleftrightarrow> a \<in> below G b 999" by (simp add: below_def e)
  ultimately show ?thesis by (simp add: final_dist_def)
qed

lemma calc_node_distances_no_edges:
  assumes "lower origin \<in> graph_keys ir ns"
  shows "calc_node_distances set_order origin (Some ns) (Some []) ir keep shape = Inl InvalidEdges"
proof -
  let ?dd0 = "if ir then AList.update ''root'' start_distance (init_dict start_distance ns)
      else init_dict start_distance ns"
  let ?nt0 = "if ir then AList.update ''root'' False (init_dict False ns) else init_dict False ns"
  from assms obtain d where d: "map_of ?dd0 (lower origin) = Some d"
    by (simp add: map_of_start_dict)
  then have "loop_body (Some []) ir 0 (lower origin) (?dd0, ?nt0, []) = Inl InvalidEdges"
    by (simp add: loop_body_def get_direct_links_to_any_package_def Let_def)
  then have "rec_fun set_order (Some []) ir [lower origin] 0 (?dd0, ?nt0) = Inl InvalidEdges"
    by (subst rec_fun.simps) simp
  with d show ?thesis
    by (simp add: calc_node_distances_def Let_def lower_idem)
qed




text \<open>
  C8. In a snapshot whose edges join keys of the distance dict, for nodes \<open>A\<close> and \<open>B\<close>
  and the same flags and shape, the distance the run from \<open>A\<close> assigns to \<open>B\<close> is the
  distance the run from \<open>B\<close> assigns to \<open>A\<close>; and a distance other than the start
  distance is an entry for \<open>B\<close> in the first result exactly when it is an entry for \<open>A\<close>
  in the second. With an empty edge collection both runs raise \<^verbatim>\<open>InvalidEdges\<close>.
\<close>

theorem distance_symmetric:
  assumes cl: "edges_closed ir ns (used_edges ir es)"
    and A: "A \<in> set ns" and B: "B \<in> set ns"
  shows "assigned_distance (calc_node_distances set_order (fst A) (Some ns) (Some es) ir keep shape) B
       = assigned_distance (calc_node_distances set_order (fst B) (Some ns) (Some es) ir keep shape) A \<and>
     (\<forall>d. d \<noteq> start_distance \<longrightarrow>
        ((fst B, snd B, d) \<in> entries (calc_node_distances set_order (fst A) (Some ns) (Some es) ir keep shape))
      = ((fst A, snd A, d) \<in> entries (calc_node_distances set_order (fst B) (Some ns) (Some es) ir keep shape)))"
proof (cases "es = []")
  case True
  have "lower (fst A) \<in> graph_keys ir ns" "lower (fst B) \<in> graph_keys ir ns"
    using A B by (auto simp: graph_keys_def node_keys_def)
  then show ?thesis using True by (simp add: calc_node_distances_no_edges)
next
  case False
  let ?G = "used_edges ir es"
  let ?f = "\<lambda>X Y. final_dist ?G (lower (fst X)) (lower (fst Y))"
  have part: "assigned_distance (calc_node_distances set_order (fst X) (Some ns) (Some es) ir keep shape) Y
         = Inr (?f X Y) \<and>
       (\<forall>d. d \<noteq> start_distance \<longrightarrow>
         ((fst Y, snd Y, d) \<in> entries (calc_node_distances set_order (fst X) (Some ns) (Some es) ir keep shape))
          = (d = ?f X Y))"
    if X: "X \<in> set ns" and Y: "Y \<in> set ns" for X Y
  proof -
    let ?a = "lower (fst X)"
    let ?rows = "dist_rows ?G ?a ir keep ns"
    have ok: "?a \<in> graph_keys ir ns" using X by (auto simp: graph_keys_def node_keys_def)
    have r: "calc_node_distances set_order (fst X) (Some ns) (Some es) ir keep shape
        = Inr (shape_result shape ?rows)"
      by (rule calc_node_distances_result[OF cl False ok])
    have fnl: "\<forall>r \<in> set ?rows. snd (snd r) = final_dist ?G ?a (lower (fst r))"
      by (rule dist_rows_functional)
    have val: "d = ?f X Y" if "(fst Y, snd Y, d) \<in> set ?rows" for d
      using that fnl by force
    have pres: "(fst Y, snd Y, ?f X Y) \<in> set ?rows" if "?f X Y \<noteq> start_distance"
    proof -
      have "?f X Y > start_distance"
        using that final_dist_range[of ?G ?a "lower (fst Y)"] by (simp add: start_distance_def)
      with Y show ?thesis by (auto simp: dist_rows_def)
    qed
    have 1: "assigned_distance (Inr (shape_result shape ?rows)) (fst Y, snd Y)
        = Inr (if \<exists>d. (fst Y, snd Y, d) \<in> set ?rows then ?f X Y else start_distance)"
      by (rule assigned_shape_result[OF fnl])
    have "(if \<exists>d. (fst Y, snd Y, d) \<in> set ?rows then ?f X Y else start_distance) = ?f X Y"
    proof (cases "?f X Y = start_distance")
      case True
      then show ?thesis by simp
    next
      case False
      from pres[OF False] show ?thesis by auto
    qed
    with 1 have a: "assigned_distance (Inr (shape_result shape ?rows)) Y = Inr (?f X Y)"
      by simp
    have e: "entries (Inr (shape_result shape ?rows)) = set ?rows"
      by (rule entries_shape_result[OF fnl])
    have b: "((fst Y, snd Y, d) \<in> set ?rows) = (d = ?f X Y)" if "d \<noteq> start_distance" for d
      using that val pres by blast
    show ?thesis unfolding r e using a b by simp
  qed
  have sym: "?f A B = ?f B A" by (rule final_dist_sym)
  from part[OF A B] part[OF B A] sym show ?thesis by simp
qed

theorem distance_symmetric_witness:
  "edges_closed False [(''a'', ''1''), (''b'', ''2''), (''c'', ''3'')]
     (used_edges False [((''a'', ''1''), (''b'', ''2''))]) \<and>
   (''a'', ''1'') \<in> set [(''a'', ''1''), (''b'', ''2''), (''c'', ''3'')] \<and>
   (''b'', ''2'') \<in> set [(''a'', ''1''), (''b'', ''2''), (''c'', ''3'')] \<and>
   assigned_distance
     (calc_node_distances (\<lambda>xs. xs) ''a'' (Some [(''a'', ''1''), (''b'', ''2''), (''c'', ''3'')])
        (Some [((''a'', ''1''), (''b'', ''2''))]) False False ''dict'') (''b'', ''2'')
   = assigned_distance
     (calc_node_distances (\<lambda>xs. xs) ''b'' (Some [(''a'', ''1''), (''b'', ''2''), (''c'', ''3'')])
        (Some [((''a'', ''1''), (''b'', ''2''))]) False False ''dict'') (''a'', ''1'') \<and>
   assigned_distance
     (calc_node_distances (\<lambda>xs. xs) ''a'' (Some [(''a'', ''1''), (''b'', ''2''), (''c'', ''3'')])
        (Some [((''a'', ''1''), (''b'', ''2''))]) False False ''dict'') (''b'', ''2'')
   = Inr 1"
proof -
  let ?ns = "[(''a'', ''1''), (''b'', ''2''), (''c'', ''3'')]"
  let ?es = "[((''a'', ''1''), (''b'', ''2''))]"
  have h1: "edges_closed False ?ns (used_edges False ?es)" by code_simp
  have h2: "(''a'', ''1'') \<in> set ?ns" by simp
  have h3: "(''b'', ''2'') \<in> set ?ns" by simp
  have v: "assigned_distance
     (calc_node_distances (\<lambda>xs. xs) ''a'' (Some ?ns) (Some ?es) False False ''dict'') (''b'', ''2'') = Inr 1"
    by code_simp
  from distance_symmetric[OF h1 h2 h3, where set_order = "\<lambda>xs. xs" and keep = False
      and shape = "''dict''"] h1 h2 h3 v
  show ?thesis by simp
qed

subsection \<open>An origin that is not a node\<close>

text \<open>
  C9, as amended. When the lowered origin is the key of no node, and is not the key
  \<^verbatim>\<open>root\<close> that \<^verbatim>\<open>include_root\<close> adds to the dict, \<^verbatim>\<open>calc_node_distances\<close> returns
  the empty list for the shape \<^verbatim>\<open>list\<close> and the empty dict for any other shape, whatever
  the edge argument is; nothing is raised.
\<close>

theorem calc_node_distances_unknown_origin:
  assumes "lower origin \<notin> node_keys ns"
    and "include_root \<longrightarrow> lower origin \<noteq> ''root''"
  shows "calc_node_distances set_order origin (Some ns) edges include_root keep shape =
           Inr (if shape = ''list'' then RList [] else RDict [])"
  using assms by (simp add: calc_node_distances_def Let_def map_of_init_dict update_conv')

theorem calc_node_distances_unknown_origin_witness:
  "lower ''zzz'' \<notin> node_keys [(''a'', ''1'')] \<and> lower ''zzz'' \<noteq> ''root'' \<and>
   calc_node_distances (\<lambda>xs. xs) ''zzz'' (Some [(''a'', ''1'')]) None True False ''dict'' = Inr (RDict [])"
proof -
  have h1: "lower ''zzz'' \<notin> node_keys [(''a'', ''1'')]" by code_simp
  have h2: "lower ''zzz'' \<noteq> ''root''" by code_simp
  show ?thesis
    using h1 h2 calc_node_distances_unknown_origin[where origin = "''zzz''" and ns = "[(''a'', ''1'')]"
        and include_root = True and set_order = "\<lambda>xs. xs" and edges = None and keep = False
        and shape = "''dict''"]
    by simp
qed

text \<open>
  C9 as stated fails: with \<^verbatim>\<open>include_root\<close> the key \<^verbatim>\<open>root\<close> is in the dict although no
  node has it, so the origin \<^verbatim>\<open>root\<close> is searched for; with an empty edge collection the
  search raises \<^verbatim>\<open>InvalidEdges\<close>.
\<close>

theorem calc_node_distances_unknown_origin_counterexample:
  "lower ''root'' \<notin> node_keys [(''a'', ''1'')] \<and>
   calc_node_distances (\<lambda>xs. xs) ''root'' (Some [(''a'', ''1'')]) (Some []) True False ''list''
     = Inl InvalidEdges"
  by code_simp

subsection \<open>The memo of the instance accessors\<close>

text \<open>
  C10. Once \<^verbatim>\<open>ancestors\<close> (or \<^verbatim>\<open>descendants\<close>) has returned a non-empty list for the
  edges \<open>e1\<close>, a later call with any edges \<open>e2\<close> returns that list again and leaves the
  object as it is. On a new object the first call returns the edges whose second (first)
  node has the package's key. On the empty edge collection the accessors return the empty
  list, where the static \<^verbatim>\<open>get_direct_links_to_any_package\<close> raises \<^verbatim>\<open>InvalidEdges\<close>.
\<close>

theorem accessors_memoize:
  "(fst (ancestors p e1) \<noteq> [] \<longrightarrow> ancestors (snd (ancestors p e1)) e2 = ancestors p e1) \<and>
   (fst (descendants p e1) \<noteq> [] \<longrightarrow>
      descendants (snd (descendants p e1)) e2 = descendants p e1) \<and>
   fst (ancestors (init_package n v) e1) = filter (\<lambda>x. lower n = lower (fst (snd x))) e1 \<and>
   fst (descendants (init_package n v) e1) = filter (\<lambda>x. lower n = lower (fst (fst x))) e1 \<and>
   ancestors (init_package n v) [] = ([], init_package n v) \<and>
   descendants (init_package n v) [] = ([], init_package n v) \<and>
   get_direct_links_to_any_package n (Some []) = Inl InvalidEdges"
  by (simp add: ancestors_def descendants_def init_package_def
      get_direct_links_to_any_package_def Let_def)

theorem accessors_memoize_witness:
  "fst (ancestors (init_package ''B'' None) [((''a'', ''1''), (''b'', ''2''))]) \<noteq> [] \<and>
   ancestors (snd (ancestors (init_package ''B'' None) [((''a'', ''1''), (''b'', ''2''))]))
       [((''c'', ''1''), (''b'', ''2''))]
     = ancestors (init_package ''B'' None) [((''a'', ''1''), (''b'', ''2''))] \<and>
   fst (descendants (init_package ''B'' None) [((''b'', ''2''), (''a'', ''1''))]) \<noteq> [] \<and>
   descendants (snd (descendants (init_package ''B'' None) [((''b'', ''2''), (''a'', ''1''))]))
       []
     = descendants (init_package ''B'' None) [((''b'', ''2''), (''a'', ''1''))]"
proof -
  have h1: "fst (ancestors (init_package ''B'' None) [((''a'', ''1''), (''b'', ''2''))]) \<noteq> []"
    by code_simp
  have h2: "fst (descendants (init_package ''B'' None) [((''b'', ''2''), (''a'', ''1''))]) \<noteq> []"
    by code_simp
  show ?thesis
    using h1 h2
      accessors_memoize[of "init_package ''B'' None" "[((''a'', ''1''), (''b'', ''2''))]"
        "[((''c'', ''1''), (''b'', ''2''))]"]
      accessors_memoize[of "init_package ''B'' None" "[((''b'', ''2''), (''a'', ''1''))]" "[]"]
    by simp
qed

subsection \<open>The filter on \<^verbatim>\<open>root\<close>\<close>

text \<open>
  C5, at an input where the code leaves the claim. With \<^verbatim>\<open>include_root\<close> false the test
  \<^verbatim>\<open>'root' not in str(nx)\<close> drops the edge between the packages \<^verbatim>\<open>rootpy\<close> and
  \<^verbatim>\<open>numpy\<close>, neither of which is the node \<^verbatim>\<open>root\<close>; \<^verbatim>\<open>rootpy\<close> is one hop from
  \<^verbatim>\<open>numpy\<close> and stays at the start distance. With \<^verbatim>\<open>include_root\<close> true the same
  edge is used.
\<close>

theorem root_substring_edge_dropped:
  "root_not_in_str ((''rootpy'', ''1.0''), (''numpy'', ''1.9'')) = False \<and>
   calc_node_distances (\<lambda>xs. xs) ''numpy'' (Some [(''rootpy'', ''1.0''), (''numpy'', ''1.9'')])
       (Some [((''rootpy'', ''1.0''), (''numpy'', ''1.9''))]) False True ''list''
     = Inr (RList [(''rootpy'', ''1.0'', - 999), (''numpy'', ''1.9'', 0)]) \<and>
   calc_node_distances (\<lambda>xs. xs) ''numpy'' (Some [(''rootpy'', ''1.0''), (''numpy'', ''1.9'')])
       (Some [((''rootpy'', ''1.0''), (''numpy'', ''1.9''))]) True True ''list''
     = Inr (RList [(''rootpy'', ''1.0'', 1), (''numpy'', ''1.9'', 0), (''root'', ''0.0.0'', - 999)])"
  by code_simp

subsection \<open>Version classifier\<close>

lemma versions_nonempty:
  "get_package_versions_from_pypi release_ids loose_sort package = Some versions \<Longrightarrow>
   versions \<noteq> []"
  by (auto simp: get_package_versions_from_pypi_def Let_def split: option.splits if_splits)

lemma split_dot_no_dot: "CHR ''.'' \<notin> set v \<Longrightarrow> split_dot v = [v]"
  by (induction v) auto

text \<open>
  C7. When the index lookup gives a version list and the installed version is above its
  last element in the order of \<^verbatim>\<open>parse_version\<close>, the verdict has status 999 and both
  sub-records are not outdated with the installed version as latest.
\<close>

theorem beyond_latest_is_999:
  assumes "get_package_versions_from_pypi release_ids loose_sort package = Some versions"
    and "parse_version_lt (last versions) v"
  shows "check_latest_major_minor_versions release_ids loose_sort parse_version_lt package (Some v)
         = Inr \<lparr>major_version = \<lparr>outdated = Some False, latest = Some v\<rparr>,
                minor_version = \<lparr>outdated = Some False, latest = Some v\<rparr>,
                code = 999\<rparr>"
  using assms versions_nonempty[OF assms(1)]
  by (simp add: check_latest_major_minor_versions_def py_last_def)

theorem beyond_latest_is_999_witness:
  "get_package_versions_from_pypi (\<lambda>_. Some [''1.0.0'', ''1.5.0'', ''2.0.0'']) (\<lambda>xs. xs) ''pkg''
     = Some [''1.0.0'', ''1.5.0'', ''2.0.0''] \<and>
   lenient_lt (last [''1.0.0'', ''1.5.0'', ''2.0.0'']) ''3.0.0'' \<and>
   check_latest_major_minor_versions (\<lambda>_. Some [''1.0.0'', ''1.5.0'', ''2.0.0'']) (\<lambda>xs. xs)
       lenient_lt ''pkg'' (Some ''3.0.0'')
     = Inr \<lparr>major_version = \<lparr>outdated = Some False, latest = Some ''3.0.0''\<rparr>,
            minor_version = \<lparr>outdated = Some False, latest = Some ''3.0.0''\<rparr>,
            code = 999\<rparr>"
proof -
  have h1: "get_package_versions_from_pypi (\<lambda>_. Some [''1.0.0'', ''1.5.0'', ''2.0.0''])
      (\<lambda>xs. xs) ''pkg'' = Some [''1.0.0'', ''1.5.0'', ''2.0.0'']"
    by (simp add: get_package_versions_from_pypi_def)
  have h2: "lenient_lt (last [''1.0.0'', ''1.5.0'', ''2.0.0'']) ''3.0.0''"
    by code_simp
  from beyond_latest_is_999[where parse_version_lt = lenient_lt, OF h1 h2] h1 h2
  show ?thesis by simp
qed

text \<open>
  C3, as amended. When the index lookup gives a version list and no installed version is
  passed, both sub-records are outdated with the last element of the list as latest, and
  the status stays at the initial -1: the branch of lines 435 to 441 does not set it.
\<close>

theorem no_installed_version:
  assumes "get_package_versions_from_pypi release_ids loose_sort package = Some versions"
  shows "check_latest_major_minor_versions release_ids loose_sort parse_version_lt package None
         = Inr \<lparr>major_version = \<lparr>outdated = Some True, latest = Some (last versions)\<rparr>,
                minor_version = \<lparr>outdated = Some True, latest = Some (last versions)\<rparr>,
                code = - 1\<rparr>"
  using assms versions_nonempty[OF assms]
  by (simp add: check_latest_major_minor_versions_def py_last_def)

theorem no_installed_version_witness:
  "get_package_versions_from_pypi (\<lambda>_. Some [''1.0.0'', ''1.5.0'', ''2.0.0'']) (\<lambda>xs. xs) ''pkg''
     = Some [''1.0.0'', ''1.5.0'', ''2.0.0''] \<and>
   check_latest_major_minor_versions (\<lambda>_. Some [''1.0.0'', ''1.5.0'', ''2.0.0'']) (\<lambda>xs. xs)
       lenient_lt ''pkg'' None
     = Inr \<lparr>major_version = \<lparr>outdated = Some True, latest = Some ''2.0.0''\<rparr>,
            minor_version = \<lparr>outdated = Some True, latest = Some ''2.0.0''\<rparr>,
            code = - 1\<rparr>"
proof -
  have h1: "get_package_versions_from_pypi (\<lambda>_. Some [''1.0.0'', ''1.5.0'', ''2.0.0''])
      (\<lambda>xs. xs) ''pkg'' = Some [''1.0.0'', ''1.5.0'', ''2.0.0'']"
    by (simp add: get_package_versions_from_pypi_def)
  from no_installed_version[where parse_version_lt = lenient_lt, OF h1] h1
  show ?thesis by simp
qed

text \<open>C3 as stated fails: the verdict returned is not the one with status 0.\<close>

theorem no_installed_version_counterexample:
  "check_latest_major_minor_versions (\<lambda>_. Some [''1.0.0'', ''1.5.0'', ''2.0.0'']) (\<lambda>xs. xs)
       lenient_lt ''pkg'' None
     \<noteq> Inr \<lparr>major_version = \<lparr>outdated = Some True, latest = Some ''2.0.0''\<rparr>,
            minor_version = \<lparr>outdated = Some True, latest = Some ''2.0.0''\<rparr>,
            code = 0\<rparr>"
  by (simp add: check_latest_major_minor_versions_def get_package_versions_from_pypi_def
      py_last_def)

text \<open>
  C2, as amended. Against the sorted versions 1.0.0, 1.5.0, 2.0.0 the installed version
  1.0.0 gets status 1, major outdated with latest 2.0.0, and minor not outdated with
  latest 1.0.0: the candidates for the minor comparison share the first two segments of
  the installed version, and 1.5.0 does not. This holds for every order that puts 1.0.0
  below 2.0.0, not 2.0.0 below 1.0.0, and not 1.0.0 below itself.
\<close>

theorem major_outdated_minor_current:
  assumes "get_package_versions_from_pypi release_ids loose_sort package
             = Some [''1.0.0'', ''1.5.0'', ''2.0.0'']"
    and "\<not> parse_version_lt ''2.0.0'' ''1.0.0''"
    and "parse_version_lt ''1.0.0'' ''2.0.0''"
    and "\<not> parse_version_lt ''1.0.0'' ''1.0.0''"
  shows "check_latest_major_minor_versions release_ids loose_sort parse_version_lt package
           (Some ''1.0.0'')
         = Inr \<lparr>major_version = \<lparr>outdated = Some True, latest = Some ''2.0.0''\<rparr>,
                minor_version = \<lparr>outdated = Some False, latest = Some ''1.0.0''\<rparr>,
                code = 1\<rparr>"
  using assms
  by (simp add: check_latest_major_minor_versions_def py_last_def index_def)

theorem major_outdated_minor_current_witness:
  "get_package_versions_from_pypi (\<lambda>_. Some [''1.0.0'', ''1.5.0'', ''2.0.0'']) (\<lambda>xs. xs) ''pkg''
     = Some [''1.0.0'', ''1.5.0'', ''2.0.0''] \<and>
   \<not> lenient_lt ''2.0.0'' ''1.0.0'' \<and> lenient_lt ''1.0.0'' ''2.0.0'' \<and>
   \<not> lenient_lt ''1.0.0'' ''1.0.0'' \<and>
   check_latest_major_minor_versions (\<lambda>_. Some [''1.0.0'', ''1.5.0'', ''2.0.0'']) (\<lambda>xs. xs)
       lenient_lt ''pkg'' (Some ''1.0.0'')
     = Inr \<lparr>major_version = \<lparr>outdated = Some True, latest = Some ''2.0.0''\<rparr>,
            minor_version = \<lparr>outdated = Some False, latest = Some ''1.0.0''\<rparr>,
            code = 1\<rparr>"
proof -
  have h1: "get_package_versions_from_pypi (\<lambda>_. Some [''1.0.0'', ''1.5.0'', ''2.0.0''])
      (\<lambda>xs. xs) ''pkg'' = Some [''1.0.0'', ''1.5.0'', ''2.0.0'']"
    by (simp add: get_package_versions_from_pypi_def)
  have h2: "\<not> lenient_lt ''2.0.0'' ''1.0.0''" by code_simp
  have h3: "lenient_lt ''1.0.0'' ''2.0.0''" by code_simp
  have h4: "\<not> lenient_lt ''1.0.0'' ''1.0.0''" by code_simp
  from major_outdated_minor_current[where parse_version_lt = lenient_lt, OF h1 h2 h3 h4]
    h1 h2 h3 h4
  show ?thesis by simp
qed

text \<open>
  C2 as stated fails: at that input the minor sub-record of the verdict is not outdated.
\<close>

theorem major_outdated_minor_current_counterexample:
  "check_latest_major_minor_versions (\<lambda>_. Some [''1.0.0'', ''1.5.0'', ''2.0.0'']) (\<lambda>xs. xs)
       lenient_lt ''pkg'' (Some ''1.0.0'')
     = Inr \<lparr>major_version = \<lparr>outdated = Some True, latest = Some ''2.0.0''\<rparr>,
            minor_version = \<lparr>outdated = Some False, latest = Some ''1.0.0''\<rparr>,
            code = 1\<rparr> \<and>
   outdated \<lparr>outdated = Some False, latest = Some ''1.0.0''\<rparr> \<noteq> Some True"
  by code_simp

text \<open>
  C6, where the code leaves the claim. An installed version without a dot that the order
  puts below the latest version of the index reaches \<^verbatim>\<open>version.split('.')[1]\<close> on line
  468, which raises \<^verbatim>\<open>IndexError\<close>; no verdict is returned.
\<close>

theorem short_version_raises:
  assumes "get_package_versions_from_pypi release_ids loose_sort package = Some versions"
    and "CHR ''.'' \<notin> set v"
    and "\<not> parse_version_lt (last versions) v"
    and "parse_version_lt v (last versions)"
  shows "check_latest_major_minor_versions release_ids loose_sort parse_version_lt package (Some v)
         = Inl IndexError"
  using assms versions_nonempty[OF assms(1)]
  by (simp add: check_latest_major_minor_versions_def py_last_def index_def split_dot_no_dot)

theorem short_version_raises_witness:
  "get_package_versions_from_pypi (\<lambda>_. Some [''1'', ''2'']) (\<lambda>xs. xs) ''pkg'' = Some [''1'', ''2''] \<and>
   CHR ''.'' \<notin> set ''1'' \<and> \<not> lenient_lt (last [''1'', ''2'']) ''1'' \<and>
   lenient_lt ''1'' (last [''1'', ''2'']) \<and>
   check_latest_major_minor_versions (\<lambda>_. Some [''1'', ''2'']) (\<lambda>xs. xs) lenient_lt ''pkg''
       (Some ''1'')
     = Inl IndexError"
proof -
  have h1: "get_package_versions_from_pypi (\<lambda>_. Some [''1'', ''2'']) (\<lambda>xs. xs) ''pkg''
      = Some [''1'', ''2'']"
    by (simp add: get_package_versions_from_pypi_def)
  have h2: "CHR ''.'' \<notin> set ''1''" by simp
  have h3: "\<not> lenient_lt (last [''1'', ''2'']) ''1''" by code_simp
  have h4: "lenient_lt ''1'' (last [''1'', ''2''])" by code_simp
  from short_version_raises[where parse_version_lt = lenient_lt, OF h1 h2 h3 h4] h1 h2 h3 h4
  show ?thesis by simp
qed

subsection \<open>Manifest reconciler\<close>









text \<open>
  A key in both collections whose constraints hold no \<^verbatim>\<open>==\<close> (a range such as
  \<^verbatim>\<open>>=2.0\<close>) makes the \<^verbatim>\<open>[0]\<close> of line 583 raise \<^verbatim>\<open>IndexError\<close>, although the
  docstring puts such packages in \<^verbatim>\<open>verdiff\<close>.
\<close>

lemma unpinned_range_raises:
  "compare_req_file_to_env
     (Some [\<lparr>r_key = ''b'', r_project_name = ''B'', r_specs = [(''>='', ''2.0'')]\<rparr>])
     [(''b'', init_package ''b'' (Some ''3.0''))]
   = Inl IndexError"
  by code_simp

end
